theory Spec2Isabelle
  imports Complex_Main "HOL-Library.Sublist" "HOL-Library.Multiset"
begin

section \<open>Errors\<close>

text \<open>
  The exceptions the modelled code can raise. A function of the source that can raise
  returns \<open>error + 'a\<close>, with \<open>Inl\<close> for the exception.
\<close>

datatype error = ValueError | TypeError | ZeroDivisionError | OverflowError | IndexError

section \<open>Workload plan: \<open>runner._compute\<close>\<close>

text \<open>
  \<open>str.split(':')\<close>: the fields between the separators, in order. The result is never
  empty: the empty string has the one field \<open>''''\<close>.
\<close>

fun str_split :: "char \<Rightarrow> string \<Rightarrow> string list" where
  "str_split sep [] = [[]]"
| "str_split sep (c # cs) =
     (if c = sep then [] # str_split sep cs
      else (c # hd (str_split sep cs)) # tl (str_split sep cs))"

text \<open>
  The built-in \<open>int(s)\<close> for a string, base 10, in its plain decimal form: surrounding
  whitespace is dropped, then an optional sign and at least one decimal digit must
  remain. Anything else raises ValueError (\<open>None\<close> here). Python integers are
  unbounded, so the value is an \<open>int\<close>.
\<close>

definition is_space :: "char \<Rightarrow> bool" where
  "is_space c \<longleftrightarrow> c \<in> set [CHR '' '', CHR 0x09, CHR 0x0A, CHR 0x0B, CHR 0x0C, CHR 0x0D]"

definition is_digit :: "char \<Rightarrow> bool" where
  "is_digit c \<longleftrightarrow> (48::nat) \<le> of_char c \<and> of_char c \<le> (57::nat)"

definition digit_val :: "char \<Rightarrow> int" where
  "digit_val c = int (of_char c) - 48"

fun digits_val :: "int \<Rightarrow> string \<Rightarrow> int option" where
  "digits_val acc [] = Some acc"
| "digits_val acc (c # cs) =
     (if is_digit c then digits_val (10 * acc + digit_val c) cs else None)"

definition strip :: "string \<Rightarrow> string" where
  "strip s = rev (dropWhile is_space (rev (dropWhile is_space s)))"

definition unsigned_val :: "string \<Rightarrow> int option" where
  "unsigned_val s = (if s = [] then None else digits_val 0 s)"

definition py_int :: "string \<Rightarrow> int option" where
  "py_int s =
     (case strip s of
        [] \<Rightarrow> None
      | c # cs \<Rightarrow>
          if c = CHR ''-'' then map_option uminus (unsigned_val cs)
          else if c = CHR ''+'' then unsigned_val cs
          else unsigned_val (c # cs))"

text \<open>
  The list comprehension \<open>[int(x) for x in spec.split(':')]\<close>: the first field that is
  no integer literal raises ValueError, otherwise the values come in the order of the
  fields.
\<close>

fun ints_of :: "string list \<Rightarrow> int list option" where
  "ints_of [] = Some []"
| "ints_of (f # fs) =
     (case py_int f of
        None \<Rightarrow> None
      | Some v \<Rightarrow> (case ints_of fs of None \<Rightarrow> None | Some vs \<Rightarrow> Some (v # vs)))"

definition parse_spec :: "string \<Rightarrow> int list option" where
  "parse_spec spec = ints_of (str_split CHR '':'' spec)"

text \<open>
  The part of the \<open>args\<close> dictionary that \<open>_compute\<close> reads: the values under the
  keys \<open>users\<close>, \<open>cycles\<close> and \<open>agents\<close>. The last is \<open>None\<close> when the option was
  not given.
\<close>

record args =
  arg_users :: string
  arg_cycles :: string
  arg_agents :: "int option"

text \<open>
  \<open>_compute(args)\<close>: the total is accumulated tier by tier as the source does, then
  multiplied by the agent count when there is one. The result is the tuple
  \<open>(total, cycles, users, agents)\<close>.
\<close>

definition compute :: "args \<Rightarrow> error + (int \<times> int list \<times> int list \<times> int option)" where
  "compute a =
     (case parse_spec (arg_users a) of
        None \<Rightarrow> Inl ValueError
      | Some us \<Rightarrow>
          (case parse_spec (arg_cycles a) of
             None \<Rightarrow> Inl ValueError
           | Some cs \<Rightarrow>
               let total = foldl (\<lambda>total user. total + sum_list (map (\<lambda>cycle. cycle * user) cs)) 0 us;
                   total' = (case arg_agents a of None \<Rightarrow> total | Some n \<Rightarrow> total * n)
               in Inr (total', cs, us, arg_agents a)))"

section \<open>Local run: \<open>runner._run\<close> and \<open>runner.run\<close>\<close>

text \<open>
  The two attributes that \<open>_run\<close> writes on the test object \<open>ob\<close>. All workers of a
  run share this one object. \<open>None\<close> is an attribute not written yet.
\<close>

record test_object =
  ob_current_cycle :: "int option"
  ob_current_user :: "int option"

text \<open>
  What a run does, in the order it happens: \<open>Invoke num user cycle ob\<close> is the start of
  the call \<open>test(test_result)\<close> made by worker \<open>num\<close> of tier \<open>user\<close> inside its loop for
  the cycle size \<open>cycle\<close>, with the attributes \<open>ob\<close> that the test object has at that
  moment; \<open>Yield num\<close> is the \<open>gevent.sleep(0)\<close> of worker \<open>num\<close>, which follows the
  return of its call.
\<close>

datatype event = Invoke nat int int test_object | Yield nat

text \<open>
  Where a worker stands in \<open>_run\<close>. \<open>Outer cs\<close>: at the head of
  \<open>for cycle in cycles\<close>, with the cycle sizes \<open>cs\<close> still to come (a worker that was
  spawned and has not started yet stands there with all of them). \<open>Inner cycle k cs\<close>:
  at the head of \<open>for x in range(cycle)\<close>, with \<open>k\<close> iterations of this inner loop
  and then the cycle sizes \<open>cs\<close> to come; this is where a worker goes on after the
  call it is in and the \<open>gevent.sleep(0)\<close> that follows it.
\<close>

datatype position = Outer "int list" | Inner int nat "int list"

record worker =
  w_num :: nat
  w_user :: int
  w_pos :: position

text \<open>
  The state of a run: the shared test object, what has happened so far, and the
  greenlets of the current group. \<open>ready\<close> is the hub's queue of greenlets that can run,
  first in first out: those just spawned and those that sleep in \<open>gevent.sleep(0)\<close>.
  \<open>waiting\<close> holds the greenlets that are inside a call of the scenario which has
  blocked: \<open>run\<close> calls \<open>monkey.patch_all()\<close>, so input and output inside the scenario
  switch to the hub instead of holding up the process. The position kept for a greenlet
  in either list is the one it goes on from after its call and its sleep.
\<close>

record sched =
  ob :: test_object
  trace :: "event list"
  ready :: "worker list"
  waiting :: "worker list"

text \<open>
  One worker runs from where it stands until it calls the scenario (\<open>Some\<close> of the
  position it will go on from after that call and the sleep that follows it) or returns
  from \<open>_run\<close> (\<open>None\<close>). The attributes are written once per cycle size, before the
  inner loop; \<open>range(cycle)\<close> is empty for \<open>cycle \<le> 0\<close>.
\<close>

function resume :: "nat \<Rightarrow> int \<Rightarrow> position \<Rightarrow> sched \<Rightarrow> sched \<times> position option" where
  "resume num user (Outer []) s = (s, None)"
| "resume num user (Outer (cycle # cs)) s =
     resume num user (Inner cycle (nat cycle) cs)
       (s\<lparr>ob := \<lparr>ob_current_cycle = Some cycle, ob_current_user = Some user\<rparr>\<rparr>)"
| "resume num user (Inner cycle 0 cs) s = resume num user (Outer cs) s"
| "resume num user (Inner cycle (Suc k) cs) s =
     (s\<lparr>trace := trace s @ [Invoke num user cycle (ob s)]\<rparr>, Some (Inner cycle k cs))"
  by pat_completeness auto
termination
  by (relation "measure (\<lambda>(num, user, p, s).
        case p of Outer cs \<Rightarrow> 2 * length cs | Inner cycle k cs \<Rightarrow> 2 * length cs + 1)") auto

text \<open>
  What the source does not determine: how the scenario's calls behave and when the
  input and output they wait for is done. A run is therefore taken along a list of
  decisions, one for each turn of the hub, and the properties below are stated for
  every such list.

  \<open>Runs blocks\<close>: the hub switches to the greenlet at the head of the ready queue. It
  runs until it returns from \<open>_run\<close> or calls the scenario. If \<open>blocks\<close> is false the
  call runs to its end without switching and the greenlet sleeps with
  \<open>gevent.sleep(0)\<close>, which puts it at the back of the ready queue. If \<open>blocks\<close> is true
  the call switches to the hub before its end, and the greenlet waits. With an empty
  ready queue nothing happens.

  \<open>Woken num\<close>: what the call of the waiting worker \<open>num\<close> was blocked on is done. The
  hub switches to it, the call runs to its end and the greenlet sleeps with
  \<open>gevent.sleep(0)\<close>. (A call that blocks several times is a call that blocks once for
  longer: nothing that the model records happens in between.) With no such waiting
  worker nothing happens.
\<close>

datatype decision = Runs bool | Woken nat

fun hub_step :: "decision \<Rightarrow> sched \<Rightarrow> sched" where
  "hub_step (Runs blocks) s =
     (case ready s of
        [] \<Rightarrow> s
      | w # q \<Rightarrow>
          (case resume (w_num w) (w_user w) (w_pos w) (s\<lparr>ready := q\<rparr>) of
             (s', None) \<Rightarrow> s'
           | (s', Some p') \<Rightarrow>
               if blocks then s'\<lparr>waiting := waiting s' @ [w\<lparr>w_pos := p'\<rparr>]\<rparr>
               else s'\<lparr>trace := trace s' @ [Yield (w_num w)],
                       ready := ready s' @ [w\<lparr>w_pos := p'\<rparr>]\<rparr>))"
| "hub_step (Woken num) s =
     (case filter (\<lambda>w. w_num w = num) (waiting s) of
        [] \<Rightarrow> s
      | w # ws \<Rightarrow>
          s\<lparr>trace := trace s @ [Yield num],
            waiting := filter (\<lambda>w. w_num w \<noteq> num) (waiting s),
            ready := ready s @ [w]\<rparr>)"

text \<open>
  \<open>group.join()\<close> returns when every greenlet of the group has returned. Until then
  the hub takes its turns. The result is the state reached and the decisions not used;
  when the decisions end before the group is done, the join has not returned (the state
  is not \<open>joined\<close>).
\<close>

definition joined :: "sched \<Rightarrow> bool" where
  "joined s \<longleftrightarrow> ready s = [] \<and> waiting s = []"

fun group_join :: "decision list \<Rightarrow> sched \<Rightarrow> sched \<times> decision list" where
  "group_join [] s = (s, [])"
| "group_join (d # ds) s = (if joined s then (s, d # ds) else group_join ds (hub_step d s))"

text \<open>
  \<open>for i in range(user): group.spawn(_run, i, ob, test_result, cycles, user)\<close>: the
  workers of one tier, in the order they are spawned. \<open>range(user)\<close> is empty for
  \<open>user \<le> 0\<close>.
\<close>

definition spawn_all :: "int \<Rightarrow> int list \<Rightarrow> worker list" where
  "spawn_all user cycles =
     map (\<lambda>i. \<lparr>w_num = i, w_user = user, w_pos = Outer cycles\<rparr>) [0..<nat user]"

text \<open>
  The loop \<open>for user in users\<close> of \<open>run\<close>: a new group, its workers spawned, then the
  join; the next tier is reached only when the join has returned. The result is the
  state and whether \<open>run\<close> has got to its \<open>return\<close>.
\<close>

fun run_tiers :: "int list \<Rightarrow> int list \<Rightarrow> decision list \<Rightarrow> sched \<Rightarrow> sched \<times> bool" where
  "run_tiers cycles [] ds s = (s, True)"
| "run_tiers cycles (user # users) ds s =
     (case group_join ds (s\<lparr>ready := spawn_all user cycles, waiting := []\<rparr>) of
        (s', ds') \<Rightarrow> if joined s' then run_tiers cycles users ds' s' else (s', False))"

text \<open>
  \<open>run(args)\<close>: the plan is computed first, so an error of \<open>_compute\<close> leaves \<open>run\<close>
  before any worker exists. The stream set-up and the lookup of the scenario by name are
  outside the model.
\<close>

definition run :: "decision list \<Rightarrow> args \<Rightarrow> error + (sched \<times> bool)" where
  "run ds a =
     (case compute a of
        Inl e \<Rightarrow> Inl e
      | Inr (expected, cycles, users, agents) \<Rightarrow>
          Inr (run_tiers cycles users ds
                 \<lparr>ob = \<lparr>ob_current_cycle = None, ob_current_user = None\<rparr>, trace = [],
                  ready = [], waiting = []\<rparr>))"

fun is_invoke :: "event \<Rightarrow> bool" where
  "is_invoke (Invoke num user cycle t) = True"
| "is_invoke (Yield num) = False"

section \<open>Time\<close>

text \<open>
  A \<open>datetime\<close> is a count of microseconds from a fixed origin, a \<open>timedelta\<close> a count
  of microseconds; the difference of two datetimes is a timedelta. Python keeps a
  timedelta as days, seconds (0 to 86399) and microseconds: the attribute \<open>.seconds\<close> is
  the second of these fields, not the whole length in seconds. \<open>total_seconds()\<close> is the
  whole length; it is a Python float, taken here as the exact real number.
\<close>

type_synonym datetime = int

type_synonym timedelta = int

definition seconds :: "timedelta \<Rightarrow> int" where
  "seconds d = (d div 1000000) mod 86400"

definition total_seconds :: "timedelta \<Rightarrow> real" where
  "total_seconds d = real_of_int d / 1000000"

text \<open>
  \<open>timedelta(x)\<close> for a number \<open>x\<close>, an integer or a float: the first parameter of the
  constructor is \<open>days\<close>. The value is \<open>x\<close> days rounded to the nearest microsecond, a
  half going away from zero (\<open>round_to_long\<close> of Python 2.7). The float is taken as the
  exact real number, and so is the constructor's arithmetic. The constructor raises
  OverflowError when the days of the normalised value are more than 999999999 either
  way.
\<close>

definition round_half_away :: "real \<Rightarrow> int" where
  "round_half_away x = (if 0 \<le> x then \<lfloor>x + 1 / 2\<rfloor> else \<lceil>x - 1 / 2\<rceil>)"

definition timedelta_of_days :: "real \<Rightarrow> error + timedelta" where
  "timedelta_of_days x =
     (let us = round_half_away (x * 86400000000)
      in if \<bar>us div 86400000000\<bar> \<le> 999999999 then Inr us else Inl OverflowError)"

text \<open>The true division of two floats, which raises on a zero divisor.\<close>

definition float_div :: "real \<Rightarrow> real \<Rightarrow> error + real" where
  "float_div x y = (if y = 0 then Inl ZeroDivisionError else Inr (x / y))"

section \<open>The result sink: \<open>test_result.TestResult\<close>, \<open>Test\<close> and \<open>Hit\<close>\<close>

text \<open>
  The status tuple \<open>(cycle, user, current_cycle, current_user)\<close> that comes with every
  event; each component is an integer or \<open>None\<close>.
\<close>

type_synonym loads_status = "int option \<times> int option \<times> int option \<times> int option"

type_synonym exc_info = string

type_synonym worker_id = "nat option"

subsection \<open>\<open>Hit\<close>\<close>

record Hit =
  h_url :: string
  h_method :: string
  h_status :: int
  h_started :: datetime
  h_elapsed :: timedelta
  h_cycle :: "int option"
  h_user :: "int option"
  h_current_cycle :: "int option"
  h_current_user :: "int option"
  h_worker_id :: worker_id

text \<open>
  \<open>add_hit(**data)\<close> passes its keyword arguments on to \<open>Hit(**data)\<close>, so each
  parameter of \<open>Hit.__init__\<close> is either given or missing in the call. \<open>elapsed\<close> is a
  timedelta or a plain number, an integer or a float; \<open>loads_status\<close> is a status tuple
  or \<open>None\<close>.
\<close>

datatype 'a kwarg = Missing | Given 'a

datatype elapsed = Timedelta timedelta | Number real

record hit_data =
  d_url :: "string kwarg"
  d_method :: "string kwarg"
  d_status :: "int kwarg"
  d_started :: "datetime kwarg"
  d_elapsed :: "elapsed kwarg"
  d_loads_status :: "loads_status option kwarg"
  d_worker_id :: "worker_id kwarg"

text \<open>
  \<open>Hit.__init__\<close>. Only \<open>worker_id\<close> has a default: a call that leaves out any other
  parameter raises TypeError before the body runs. An \<open>elapsed\<close> that is no timedelta
  goes through \<open>timedelta(elapsed)\<close>; a \<open>loads_status\<close> of \<open>None\<close> is replaced by four
  \<open>None\<close>s.
\<close>

definition Hit_init :: "hit_data \<Rightarrow> error + Hit" where
  "Hit_init d =
     (case (d_url d, d_method d, d_status d, d_started d, d_elapsed d, d_loads_status d) of
        (Given url, Given method, Given status, Given started, Given elapsed, Given loads_status) \<Rightarrow>
          (case (case elapsed of Timedelta t \<Rightarrow> Inr t | Number n \<Rightarrow> timedelta_of_days n) of
             Inl e \<Rightarrow> Inl e
           | Inr elapsed' \<Rightarrow>
               (case (case loads_status of None \<Rightarrow> (None, None, None, None) | Some st \<Rightarrow> st) of
                  (cycle, user, current_cycle, current_user) \<Rightarrow>
                    Inr \<lparr>h_url = url, h_method = method, h_status = status,
                         h_started = started, h_elapsed = elapsed',
                         h_cycle = cycle, h_user = user,
                         h_current_cycle = current_cycle, h_current_user = current_user,
                         h_worker_id = (case d_worker_id d of Missing \<Rightarrow> None | Given w \<Rightarrow> w)\<rparr>))
      | _ \<Rightarrow> Inl TypeError)"

subsection \<open>\<open>Test\<close>\<close>

text \<open>
  The attributes of a \<open>Test\<close>. \<open>t_user\<close> is the attribute \<open>user\<close> that \<open>startTest\<close>
  adds; \<open>None\<close> stands for an attribute that is \<open>None\<close> or not set.
\<close>

record Test =
  t_start :: datetime
  t_end :: "datetime option"
  t_name :: "string option"
  t_cycle :: "int option"
  t_current_cycle :: "int option"
  t_failures :: "exc_info list"
  t_errors :: "exc_info list"
  t_success :: int
  t_user :: "int option"

text \<open>\<open>Test()\<close> as the \<open>defaultdict\<close> calls it: \<open>start\<close> is the clock's reading.\<close>

definition Test_init :: "datetime \<Rightarrow> Test" where
  "Test_init now =
     \<lparr>t_start = now, t_end = None, t_name = None, t_cycle = None, t_current_cycle = None,
      t_failures = [], t_errors = [], t_success = 0, t_user = None\<rparr>"

text \<open>\<open>Test.finished\<close>: a datetime is always true, so only \<open>end\<close> decides.\<close>

definition finished :: "Test \<Rightarrow> bool" where
  "finished t \<longleftrightarrow> t_end t \<noteq> None"

text \<open>\<open>Test.duration\<close>: \<open>None\<close> while the test has no end.\<close>

definition Test_duration :: "Test \<Rightarrow> int option" where
  "Test_duration t = (case t_end t of Some e \<Rightarrow> Some (seconds (e - t_start t)) | None \<Rightarrow> None)"

subsection \<open>\<open>TestResult\<close>\<close>

text \<open>
  The key of a bucket is \<open>(test, current_user, current_cycle, worker_id)\<close>. The
  dictionary \<open>tests\<close> is kept as an association list with one entry per key, in the
  order the keys were first used; the queries below depend on the entries only through
  their number, sums and means. The attribute \<open>config\<close> is left out: no method reads
  it. An observer is known by a number.
\<close>

type_synonym test_key = "string \<times> int option \<times> int option \<times> worker_id"

type_synonym observer = nat

record TestResult =
  hits :: "Hit list"
  tests :: "(test_key \<times> Test) list"
  sockets :: int
  socket_data_received :: int
  start_time :: "datetime option"
  stop_time :: "datetime option"
  observers :: "observer list"

definition TestResult_init :: TestResult where
  "TestResult_init =
     \<lparr>hits = [], tests = [], sockets = 0, socket_data_received = 0,
      start_time = None, stop_time = None, observers = []\<rparr>"

definition add_observer :: "observer \<Rightarrow> TestResult \<Rightarrow> TestResult" where
  "add_observer obs r = r\<lparr>observers := observers r @ [obs]\<rparr>"

text \<open>
  \<open>self.tests[key]\<close> followed by a change \<open>f\<close> of the object found: a key that is not
  there yet gets a fresh \<open>Test()\<close> first (the \<open>defaultdict\<close>). The model reads the clock
  once in every call of a method; \<open>now\<close> is that reading.
\<close>

fun with_test :: "datetime \<Rightarrow> test_key \<Rightarrow> (Test \<Rightarrow> Test) \<Rightarrow> (test_key \<times> Test) list
    \<Rightarrow> (test_key \<times> Test) list" where
  "with_test now key f [] = [(key, f (Test_init now))]"
| "with_test now key f ((k, t) # kts) =
     (if k = key then (k, f t) # kts else (k, t) # with_test now key f kts)"

text \<open>\<open>_get_test\<close> and the key that \<open>startTest\<close> builds in the same way.\<close>

fun key_of :: "string \<Rightarrow> loads_status \<Rightarrow> worker_id \<Rightarrow> test_key" where
  "key_of test (cycle, user, current_cycle, current_user) worker_id =
     (test, current_user, current_cycle, worker_id)"

definition startTestRun :: "worker_id \<Rightarrow> datetime \<Rightarrow> TestResult \<Rightarrow> TestResult" where
  "startTestRun worker_id now r = r\<lparr>start_time := Some now\<rparr>"

definition stopTestRun :: "worker_id \<Rightarrow> datetime \<Rightarrow> TestResult \<Rightarrow> TestResult" where
  "stopTestRun worker_id now r = r\<lparr>stop_time := Some now\<rparr>"

fun startTest :: "string \<Rightarrow> loads_status \<Rightarrow> worker_id \<Rightarrow> datetime \<Rightarrow> TestResult \<Rightarrow> TestResult" where
  "startTest test (cycle, user, current_cycle, current_user) worker_id now r =
     r\<lparr>tests := with_test now (test, current_user, current_cycle, worker_id)
          (\<lambda>t. t\<lparr>t_name := Some test, t_current_cycle := current_cycle, t_user := user\<rparr>)
          (tests r)\<rparr>"

definition stopTest :: "string \<Rightarrow> loads_status \<Rightarrow> worker_id \<Rightarrow> datetime \<Rightarrow> TestResult \<Rightarrow> TestResult" where
  "stopTest test loads_status worker_id now r =
     r\<lparr>tests := with_test now (key_of test loads_status worker_id)
          (\<lambda>t. t\<lparr>t_end := Some now\<rparr>) (tests r)\<rparr>"

definition addError :: "string \<Rightarrow> exc_info \<Rightarrow> loads_status \<Rightarrow> worker_id \<Rightarrow> datetime \<Rightarrow> TestResult
    \<Rightarrow> TestResult" where
  "addError test exc loads_status worker_id now r =
     r\<lparr>tests := with_test now (key_of test loads_status worker_id)
          (\<lambda>t. t\<lparr>t_errors := t_errors t @ [exc]\<rparr>) (tests r)\<rparr>"

definition addFailure :: "string \<Rightarrow> exc_info \<Rightarrow> loads_status \<Rightarrow> worker_id \<Rightarrow> datetime \<Rightarrow> TestResult
    \<Rightarrow> TestResult" where
  "addFailure test exc loads_status worker_id now r =
     r\<lparr>tests := with_test now (key_of test loads_status worker_id)
          (\<lambda>t. t\<lparr>t_failures := t_failures t @ [exc]\<rparr>) (tests r)\<rparr>"

definition addSuccess :: "string \<Rightarrow> loads_status \<Rightarrow> worker_id \<Rightarrow> datetime \<Rightarrow> TestResult \<Rightarrow> TestResult" where
  "addSuccess test loads_status worker_id now r =
     r\<lparr>tests := with_test now (key_of test loads_status worker_id)
          (\<lambda>t. t\<lparr>t_success := t_success t + 1\<rparr>) (tests r)\<rparr>"

definition add_hit :: "hit_data \<Rightarrow> TestResult \<Rightarrow> error + TestResult" where
  "add_hit d r = (case Hit_init d of Inl e \<Rightarrow> Inl e | Inr h \<Rightarrow> Inr (r\<lparr>hits := hits r @ [h]\<rparr>))"

definition socket_open :: "loads_status \<Rightarrow> worker_id \<Rightarrow> TestResult \<Rightarrow> TestResult" where
  "socket_open loads_status worker_id r = r\<lparr>sockets := sockets r + 1\<rparr>"

definition socket_close :: "loads_status \<Rightarrow> worker_id \<Rightarrow> TestResult \<Rightarrow> TestResult" where
  "socket_close loads_status worker_id r = r\<lparr>sockets := sockets r - 1\<rparr>"

definition socket_message :: "loads_status \<Rightarrow> int \<Rightarrow> worker_id \<Rightarrow> TestResult \<Rightarrow> TestResult" where
  "socket_message loads_status n worker_id r =
     r\<lparr>socket_data_received := socket_data_received r + n\<rparr>"

subsection \<open>Method calls and observers: \<open>TestResult.__getattribute__\<close>\<close>

text \<open>
  A call of one of the event methods with its arguments. This is also what an observer
  receives: \<open>obs.push(name, *args, **kwargs)\<close>.
\<close>

datatype call =
    StartTestRun worker_id
  | StopTestRun worker_id
  | StartTest string loads_status worker_id
  | StopTest string loads_status worker_id
  | AddError string exc_info loads_status worker_id
  | AddFailure string exc_info loads_status worker_id
  | AddSuccess string loads_status worker_id
  | Add_hit hit_data
  | Socket_open loads_status worker_id
  | Socket_close loads_status worker_id
  | Socket_message loads_status int worker_id

fun name_of :: "call \<Rightarrow> string" where
  "name_of (StartTestRun w) = ''startTestRun''"
| "name_of (StopTestRun w) = ''stopTestRun''"
| "name_of (StartTest t st w) = ''startTest''"
| "name_of (StopTest t st w) = ''stopTest''"
| "name_of (AddError t e st w) = ''addError''"
| "name_of (AddFailure t e st w) = ''addFailure''"
| "name_of (AddSuccess t st w) = ''addSuccess''"
| "name_of (Add_hit d) = ''add_hit''"
| "name_of (Socket_open st w) = ''socket_open''"
| "name_of (Socket_close st w) = ''socket_close''"
| "name_of (Socket_message st n w) = ''socket_message''"

fun is_socket_close :: "call \<Rightarrow> bool" where
  "is_socket_close (Socket_close st w) = True"
| "is_socket_close c = False"

text \<open>
  The method itself, as \<open>object.__getattribute__(self, name)\<close> finds it, applied to the
  arguments.
\<close>

fun plain_method :: "call \<Rightarrow> datetime \<Rightarrow> TestResult \<Rightarrow> error + TestResult" where
  "plain_method (StartTestRun w) now r = Inr (startTestRun w now r)"
| "plain_method (StopTestRun w) now r = Inr (stopTestRun w now r)"
| "plain_method (StartTest t st w) now r = Inr (startTest t st w now r)"
| "plain_method (StopTest t st w) now r = Inr (stopTest t st w now r)"
| "plain_method (AddError t e st w) now r = Inr (addError t e st w now r)"
| "plain_method (AddFailure t e st w) now r = Inr (addFailure t e st w now r)"
| "plain_method (AddSuccess t st w) now r = Inr (addSuccess t st w now r)"
| "plain_method (Add_hit d) now r = add_hit d r"
| "plain_method (Socket_open st w) now r = Inr (socket_open st w r)"
| "plain_method (Socket_close st w) now r = Inr (socket_close st w r)"
| "plain_method (Socket_message st n w) now r = Inr (socket_message st n w r)"

text \<open>The tuple of names in \<open>__getattribute__\<close>, as the source lists them.\<close>

definition wrapped_names :: "string list" where
  "wrapped_names =
     [''startTestRun'', ''stopTestRun'', ''startTest'', ''stopTest'',
      ''addError'', ''addFailure'', ''addSuccess'', ''add_hit'',
      ''socket_open'', ''socket_message'']"

text \<open>
  The sink together with what its observers have been sent: every \<open>push\<close> that has
  happened, oldest first, with the observer it went to. An observer's \<open>push\<close> is taken
  to return normally.
\<close>

record world =
  sink :: TestResult
  pushed :: "(observer \<times> call) list"

text \<open>
  A call \<open>result.name(args)\<close> from outside. For a name in the tuple the attribute is the
  wrapper: it runs the method and then pushes to each observer in the list's order. An
  exception in the method leaves the wrapper before any push. For any other name the
  attribute is the method itself.
\<close>

definition call_method :: "call \<Rightarrow> datetime \<Rightarrow> world \<Rightarrow> error + world" where
  "call_method c now w =
     (case plain_method c now (sink w) of
        Inl e \<Rightarrow> Inl e
      | Inr r \<Rightarrow>
          if name_of c \<in> set wrapped_names
          then Inr \<lparr>sink = r, pushed = pushed w @ map (\<lambda>obs. (obs, c)) (observers r)\<rparr>
          else Inr \<lparr>sink = r, pushed = pushed w\<rparr>)"

text \<open>
  A sequence of calls, each with the clock's reading at its time; the first exception
  ends it.
\<close>

fun replay :: "(call \<times> datetime) list \<Rightarrow> world \<Rightarrow> error + world" where
  "replay [] w = Inr w"
| "replay ((c, now) # cs) w =
     (case call_method c now w of Inl e \<Rightarrow> Inl e | Inr w' \<Rightarrow> replay cs w')"

subsection \<open>Queries\<close>

text \<open>\<open>_get_hits\<close> and \<open>_get_tests\<close>: a filter that is \<open>None\<close> lets everything through.\<close>

definition get_hits :: "string option \<Rightarrow> int option \<Rightarrow> TestResult \<Rightarrow> Hit list" where
  "get_hits url cycle r =
     filter (\<lambda>hit.
        if cycle \<noteq> None \<and> h_current_cycle hit \<noteq> cycle then False
        else if url \<noteq> None \<and> Some (h_url hit) \<noteq> url then False
        else True) (hits r)"

definition get_tests :: "string option \<Rightarrow> int option \<Rightarrow> bool option \<Rightarrow> TestResult \<Rightarrow> Test list" where
  "get_tests name cycle fin r =
     filter (\<lambda>test.
        if name \<noteq> None \<and> t_name test \<noteq> name then False
        else if cycle \<noteq> None \<and> t_current_cycle test \<noteq> cycle then False
        else if fin \<noteq> None \<and> Some (finished test) \<noteq> fin then False
        else True) (map snd (tests r))"

definition nb_tests :: "TestResult \<Rightarrow> nat" where
  "nb_tests r = length (tests r)"

definition nb_failures :: "TestResult \<Rightarrow> int" where
  "nb_failures r = sum_list (map (\<lambda>t. int (length (t_failures t))) (get_tests None None None r))"

definition nb_errors :: "TestResult \<Rightarrow> int" where
  "nb_errors r = sum_list (map (\<lambda>t. int (length (t_errors t))) (get_tests None None None r))"

definition nb_success :: "TestResult \<Rightarrow> int" where
  "nb_success r = sum_list (map t_success (get_tests None None None r))"

text \<open>
  \<open>TestResult.duration\<close>: \<open>stop_time or utcnow()\<close> minus \<open>start_time\<close>; subtracting
  \<open>None\<close> raises TypeError.
\<close>

definition duration :: "datetime \<Rightarrow> TestResult \<Rightarrow> error + int" where
  "duration now r =
     (case start_time r of
        None \<Rightarrow> Inl TypeError
      | Some start \<Rightarrow>
          Inr (seconds ((case stop_time r of Some stop \<Rightarrow> stop | None \<Rightarrow> now) - start)))"

text \<open>
  \<open>average_request_time\<close>: the comprehension over the filtered hits, then the mean or
  the integer 0. The values averaged are \<open>elapsed.total_seconds()\<close>, so the result is in
  seconds; the docstring of the method says \<open>in ms\<close>, which the code does not do (there is
  no factor of 1000 anywhere).
\<close>

definition average_request_time :: "string option \<Rightarrow> int option \<Rightarrow> TestResult \<Rightarrow> error + real" where
  "average_request_time url cycle r =
     (let elapsed = map (\<lambda>h. total_seconds (h_elapsed h)) (get_hits url cycle r)
      in if elapsed \<noteq> [] then float_div (sum_list elapsed) (real (length elapsed))
         else Inr 0)"

text \<open>
  \<open>tests_per_second\<close>: it subtracts \<open>start_time\<close> from \<open>stop_time\<close> itself and does not
  go through \<open>duration\<close>.
\<close>

definition tests_per_second :: "TestResult \<Rightarrow> error + real" where
  "tests_per_second r =
     (case (stop_time r, start_time r) of
        (Some stop, Some start) \<Rightarrow>
          float_div (real (nb_tests r)) (real_of_int (seconds (stop - start)))
      | _ \<Rightarrow> Inl TypeError)"

text \<open>
  \<open>requests_per_second\<close>, the neighbour of \<open>tests_per_second\<close>, which does go through
  \<open>duration\<close>.
\<close>

definition requests_per_second :: "datetime \<Rightarrow> TestResult \<Rightarrow> error + real" where
  "requests_per_second now r =
     (case duration now r of
        Inl e \<Rightarrow> Inl e
      | Inr d \<Rightarrow> float_div (real (length (hits r))) (real_of_int d))"

text \<open>
  \<open>sum(durations)\<close> over a list that may hold \<open>None\<close>: the sum starts at 0 and adding
  \<open>None\<close> to a number raises TypeError.
\<close>

fun py_sum :: "int \<Rightarrow> int option list \<Rightarrow> error + int" where
  "py_sum acc [] = Inr acc"
| "py_sum acc (None # ds) = Inl TypeError"
| "py_sum acc (Some d # ds) = py_sum (acc + d) ds"

text \<open>
  \<open>average_test_duration\<close>: the condition \<open>if t is not None\<close> of the comprehension
  tests the \<open>Test\<close> object, which is never \<open>None\<close>, so every test that passes the filter
  gives its \<open>duration\<close> to the list, \<open>None\<close> included. With an empty list the method falls
  off its end and returns \<open>None\<close>.
\<close>

definition average_test_duration :: "string option \<Rightarrow> int option \<Rightarrow> TestResult \<Rightarrow> error + real option" where
  "average_test_duration test cycle r =
     (let durations = map Test_duration (get_tests test cycle None r)
      in if durations \<noteq> []
         then (case py_sum 0 durations of
                 Inl e \<Rightarrow> Inl e
               | Inr s \<Rightarrow>
                   (case float_div (real_of_int s) (real (length durations)) of
                      Inl e \<Rightarrow> Inl e
                    | Inr m \<Rightarrow> Inr (Some m)))
         else Inr None)"

section \<open>The scenario's reports\<close>

text \<open>
  Modelled from the spec: the scenario (the callable \<open>test\<close> that \<open>_run\<close> invokes, from
  modules that are not among the sources) as section 6 of the specification describes
  its reporting: one invocation calls \<open>startTest\<close>, then exactly one of \<open>addSuccess\<close>,
  \<open>addFailure\<close> and \<open>addError\<close>, then \<open>stopTest\<close>, each with the test's identifier, the
  status tuple \<open>(cycle, user, currentCycle, currentUser)\<close> and the worker's identifier.
  The last two components of the tuple are the attributes of the test object at the
  time of the invocation; everything else is the scenario's choice, given by a \<open>report\<close>.
\<close>

datatype outcome = Success | Failure exc_info | Error exc_info

record report =
  rep_test :: string
  rep_cycle :: "int option"
  rep_user :: "int option"
  rep_worker :: worker_id
  rep_outcome :: outcome

definition invocation_calls :: "report \<Rightarrow> test_object \<Rightarrow> call list" where
  "invocation_calls rep t =
     (let st = (rep_cycle rep, rep_user rep, ob_current_cycle t, ob_current_user t)
      in [StartTest (rep_test rep) st (rep_worker rep),
          (case rep_outcome rep of
             Success \<Rightarrow> AddSuccess (rep_test rep) st (rep_worker rep)
           | Failure e \<Rightarrow> AddFailure (rep_test rep) e st (rep_worker rep)
           | Error e \<Rightarrow> AddError (rep_test rep) e st (rep_worker rep)),
          StopTest (rep_test rep) st (rep_worker rep)])"

text \<open>
  The calls that a run's invocations make on the sink: the reports are matched with the
  invocations of the trace in the order these start, and the three calls of each report
  are listed together. When calls of the scenario block, the calls of several
  invocations can reach the sink interleaved; the properties of the outcomes are
  therefore stated for every order of the calls listed here.
\<close>

fun reported_calls :: "report list \<Rightarrow> event list \<Rightarrow> call list" where
  "reported_calls reps [] = []"
| "reported_calls reps (Yield num # evs) = reported_calls reps evs"
| "reported_calls [] (Invoke num user cycle t # evs) = []"
| "reported_calls (rep # reps) (Invoke num user cycle t # evs) =
     invocation_calls rep t @ reported_calls reps evs"

text \<open>
  The calls that report an outcome, and the calls that a scenario makes for a report.
\<close>

fun is_outcome :: "call \<Rightarrow> bool" where
  "is_outcome (AddSuccess t st w) = True"
| "is_outcome (AddFailure t e st w) = True"
| "is_outcome (AddError t e st w) = True"
| "is_outcome c = False"

fun is_report :: "call \<Rightarrow> bool" where
  "is_report (StartTest t st w) = True"
| "is_report (StopTest t st w) = True"
| "is_report c = is_outcome c"

text \<open>The outcomes a sink holds: over all buckets, \<open>success + len(failures) + len(errors)\<close>.\<close>

definition outcomes_of :: "Test \<Rightarrow> int" where
  "outcomes_of t = t_success t + int (length (t_failures t)) + int (length (t_errors t))"

definition outcomes_recorded :: "TestResult \<Rightarrow> int" where
  "outcomes_recorded r = sum_list (map (\<lambda>(k, t). outcomes_of t) (tests r))"

section \<open>Distributed run: the receive loop of \<open>runner.distributed_run\<close>\<close>

text \<open>
  The state that the callback \<open>recv_result\<close> works on: the counter \<open>received[0]\<close>, what
  the local echo has been given, and whether \<open>loop.stop()\<close> has been called.

  Modelled from the spec: \<open>StdStream.push\<close> (the console echo of section 4.4, from the
  module \<open>loads.stream\<close>, which is not among the sources) takes the event and returns;
  the model keeps the events it was given, oldest first.
\<close>

record 'd coordinator =
  received :: int
  echoed :: "'d list"
  stopped :: bool

definition coordinator_init :: "'d coordinator" where
  "coordinator_init = \<lparr>received = 0, echoed = [], stopped = False\<rparr>"

text \<open>
  \<open>json.loads(msg[0])\<close>: a message is a list of frames. The deserialiser is a
  parameter \<open>loads\<close>: \<open>None\<close> where \<open>json.loads\<close> raises ValueError.
\<close>

definition decode :: "(string \<Rightarrow> 'd option) \<Rightarrow> string list \<Rightarrow> error + 'd" where
  "decode loads msg =
     (case msg of
        [] \<Rightarrow> Inl IndexError
      | frame # _ \<Rightarrow> (case loads frame of None \<Rightarrow> Inl ValueError | Some d \<Rightarrow> Inr d))"

definition recv_result :: "int \<Rightarrow> (string \<Rightarrow> 'd option) \<Rightarrow> string list \<Rightarrow> 'd coordinator
    \<Rightarrow> error + 'd coordinator" where
  "recv_result expected loads msg c =
     (case decode loads msg of
        Inl e \<Rightarrow> Inl e
      | Inr d \<Rightarrow>
          Inr (c\<lparr>echoed := echoed c @ [d],
                 received := received c + 1,
                 stopped := (if received c + 1 = expected then True else stopped c)\<rparr>))"

text \<open>
  \<open>loop.start()\<close> with \<open>recv_result\<close> as the stream's callback: the messages are taken
  in the order they arrive, one per turn of the loop, until \<open>loop.stop()\<close> has been
  called. The result is the state and the messages that were not taken. A loop that has
  taken every message and was not stopped is still waiting: \<open>stopped\<close> is false. An
  exception of the callback ends the model's loop with that error.
\<close>

fun receive_loop :: "int \<Rightarrow> (string \<Rightarrow> 'd option) \<Rightarrow> string list list \<Rightarrow> 'd coordinator
    \<Rightarrow> error + ('d coordinator \<times> string list list)" where
  "receive_loop expected loads [] c = Inr (c, [])"
| "receive_loop expected loads (msg # msgs) c =
     (if stopped c then Inr (c, msg # msgs)
      else (case recv_result expected loads msg c of
              Inl e \<Rightarrow> Inl e
            | Inr c' \<Rightarrow> receive_loop expected loads msgs c'))"

section \<open>The schedule of a local run, as the specification describes it\<close>

text \<open>
  Modelled from the spec: section 4.2 of the specification, written out as what it
  prescribes for the trace of a run (\<open>context_of\<close>, \<open>worker_script\<close>, \<open>sees_user\<close>,
  \<open>sees_cycle\<close>, \<open>as_planned\<close>, \<open>tier_segment\<close> and \<open>segments_ok\<close>). These definitions
  are compared with \<open>run\<close>, which is translated from the source.

  The attributes that an invocation of tier \<open>user\<close> for the cycle size \<open>cycle\<close> is to
  see:
\<close>

definition context_of :: "int \<Rightarrow> int \<Rightarrow> test_object" where
  "context_of user cycle = \<lparr>ob_current_cycle = Some cycle, ob_current_user = Some user\<rparr>"

text \<open>
  Modelled from the spec: what one worker is to do, for each cycle size \<open>c\<close> in order
  \<open>c\<close> times an invocation followed by a yield.
\<close>

definition worker_script :: "int list \<Rightarrow> int \<Rightarrow> nat \<Rightarrow> event list" where
  "worker_script cycles user i =
     concat (map (\<lambda>c. concat (replicate (nat c) [Invoke i user c (context_of user c), Yield i]))
       cycles)"

fun ev_num :: "event \<Rightarrow> nat" where
  "ev_num (Invoke num user cycle t) = num"
| "ev_num (Yield num) = num"

text \<open>
  Modelled from the spec: whether an invocation sees its own tier in \<open>current_user\<close>,
  and its own cycle size in \<open>current_cycle\<close>, when it starts; and the event with the
  attributes it was to see in place of those it saw.
\<close>

fun sees_user :: "event \<Rightarrow> bool" where
  "sees_user (Invoke num user cycle t) \<longleftrightarrow> ob_current_user t = Some user"
| "sees_user (Yield num) \<longleftrightarrow> True"

fun sees_cycle :: "event \<Rightarrow> bool" where
  "sees_cycle (Invoke num user cycle t) \<longleftrightarrow> ob_current_cycle t = Some cycle"
| "sees_cycle (Yield num) \<longleftrightarrow> True"

fun as_planned :: "event \<Rightarrow> event" where
  "as_planned (Invoke num user cycle t) = Invoke num user cycle (context_of user cycle)"
| "as_planned (Yield num) = Yield num"

text \<open>
  Modelled from the spec: the part of a trace that belongs to one tier of \<open>user\<close>
  workers. Every event is by one
  of the workers \<open>0\<close> to \<open>user - 1\<close>, and the events of each of them are, but for the
  attributes seen, its script from the start: all of the script when the tier is
  complete, a beginning of it when the tier is still running.
\<close>

definition tier_segment :: "int list \<Rightarrow> int \<Rightarrow> bool \<Rightarrow> event list \<Rightarrow> bool" where
  "tier_segment cycles user whole seg \<longleftrightarrow>
     (\<forall>e \<in> set seg. ev_num e < nat user) \<and>
     (\<forall>i \<in> set [0..<nat user].
        if whole
        then map as_planned (filter (\<lambda>e. ev_num e = i) seg) = worker_script cycles user i
        else prefix (map as_planned (filter (\<lambda>e. ev_num e = i) seg)) (worker_script cycles user i))"

text \<open>
  Modelled from the spec: the join barrier, as the parts of a trace for the tiers of a
  run, in the order of the tiers. When \<open>run\<close>
  has returned there is a complete part for every tier. When it has not, the last part
  is that of the tier whose join has not returned, the parts before it are complete,
  and the tiers after it have none: they have not begun.
\<close>

fun segments_ok :: "int list \<Rightarrow> bool \<Rightarrow> int list \<Rightarrow> event list list \<Rightarrow> bool" where
  "segments_ok cycles returned [] segs \<longleftrightarrow> segs = [] \<and> returned"
| "segments_ok cycles returned (user # users) [] \<longleftrightarrow> False"
| "segments_ok cycles returned (user # users) (seg # segs) \<longleftrightarrow>
     (if segs = [] \<and> \<not> returned then tier_segment cycles user False seg
      else tier_segment cycles user True seg \<and> segments_ok cycles returned users segs)"

section \<open>Invariants of a local run\<close>

text \<open>
  For the proofs: the cycle sizes of the invocations that a worker at a position still
  has to make and their number, the position that it goes on from after the next of
  them, the attributes which that next invocation sees, and the part of its script that
  is still to come.
\<close>

definition rounds :: "int list \<Rightarrow> int list" where
  "rounds cycles = concat (map (\<lambda>c. replicate (nat c) c) cycles)"

fun todo :: "position \<Rightarrow> int list" where
  "todo (Outer cs) = rounds cs"
| "todo (Inner cycle k cs) = replicate k cycle @ rounds cs"

function after :: "position \<Rightarrow> position" where
  "after (Outer []) = Outer []"
| "after (Outer (cycle # cs)) = after (Inner cycle (nat cycle) cs)"
| "after (Inner cycle 0 cs) = after (Outer cs)"
| "after (Inner cycle (Suc k) cs) = Inner cycle k cs"
  by pat_completeness auto
termination
  by (relation "measure (\<lambda>p.
        case p of Outer cs \<Rightarrow> 2 * length cs | Inner cycle k cs \<Rightarrow> 2 * length cs + 1)") auto

fun seen :: "int \<Rightarrow> test_object \<Rightarrow> position \<Rightarrow> test_object" where
  "seen user t (Inner cycle (Suc k) cs) = t"
| "seen user t p = context_of user (hd (todo p))"

definition pending :: "nat \<Rightarrow> int \<Rightarrow> position \<Rightarrow> event list" where
  "pending i user p =
     concat (map (\<lambda>c. [Invoke i user c (context_of user c), Yield i]) (todo p))"

text \<open>
  For the proofs, what holds of the state of a tier at every turn of the hub: the
  workers of the group are workers of the tier, each at most once; and what the
  scripts of the workers still hold for them, counted in \<open>owed\<close> and written out in
  \<open>pend\<close> (a waiting worker still has the yield after its call to come).
\<close>

definition pool_inv :: "int \<Rightarrow> sched \<Rightarrow> bool" where
  "pool_inv user s \<longleftrightarrow>
     distinct (map w_num (ready s @ waiting s)) \<and>
     (\<forall>w \<in> set (ready s @ waiting s). w_user w = user \<and> w_num w < nat user)"

definition owed :: "sched \<Rightarrow> nat" where
  "owed s = sum_list (map (\<lambda>w. length (todo (w_pos w))) (ready s @ waiting s))"

definition pend :: "int \<Rightarrow> nat \<Rightarrow> sched \<Rightarrow> event list" where
  "pend user i s =
     concat (map (\<lambda>w. pending i user (w_pos w)) (filter (\<lambda>w. w_num w = i) (ready s)))
     @ concat (map (\<lambda>w. Yield i # pending i user (w_pos w))
         (filter (\<lambda>w. w_num w = i) (waiting s)))"

definition user_inv :: "int \<Rightarrow> sched \<Rightarrow> bool" where
  "user_inv user s \<longleftrightarrow>
     (\<forall>e \<in> set (trace s). sees_user e) \<and>
     (\<forall>w \<in> set (waiting s). \<exists>c k cs. w_pos w = Inner c k cs) \<and>
     (ob_current_user (ob s) = Some user
        \<or> (\<forall>w \<in> set (ready s @ waiting s). \<exists>cs. w_pos w = Outer cs))"

definition tier_inv :: "int list \<Rightarrow> int \<Rightarrow> event list \<Rightarrow> sched \<Rightarrow> bool" where
  "tier_inv cycles user t0 s \<longleftrightarrow>
     pool_inv user s \<and> user_inv user s \<and>
     (\<exists>seg. trace s = t0 @ seg
        \<and> (\<forall>i. map as_planned (filter (\<lambda>e. ev_num e = i) seg) @ pend user i s
               = (if i < nat user then worker_script cycles user i else []))
        \<and> length (filter is_invoke seg) + owed s = nat user * length (rounds cycles))"

text \<open>
  For the proofs, when no call blocks: the workers of a tier stay in step. The queue
  holds workers that are all at one position \<open>p\<close>, followed by workers that have made
  their next invocation from \<open>p\<close>; and the attributes are such that the next invocation
  from \<open>p\<close> sees its own cycle size (\<open>fits\<close>).
\<close>

definition fits :: "int \<Rightarrow> test_object \<Rightarrow> position \<Rightarrow> bool" where
  "fits user t p \<longleftrightarrow> todo p \<noteq> [] \<longrightarrow> seen user t p = context_of user (hd (todo p))"

definition lockstep :: "int \<Rightarrow> sched \<Rightarrow> bool" where
  "lockstep user s \<longleftrightarrow>
     waiting s = [] \<and> (\<forall>e \<in> set (trace s). sees_cycle e) \<and>
     (\<exists>p n1 n2.
        ready s = map (\<lambda>i. \<lparr>w_num = i, w_user = user, w_pos = p\<rparr>) n1
                   @ map (\<lambda>i. \<lparr>w_num = i, w_user = user, w_pos = after p\<rparr>) n2
        \<and> (if n2 = [] then fits user (ob s) p
            else todo p \<noteq> [] \<and> ob s = context_of user (hd (todo p))))"

section \<open>Example states\<close>

text \<open>Concrete states of the sink, for evaluating the definitions.\<close>

definition two_hits :: TestResult where
  "two_hits = TestResult_init\<lparr>hits :=
     [\<lparr>h_url = ''/a'', h_method = ''GET'', h_status = 200, h_started = 0, h_elapsed = 1000000,
       h_cycle = None, h_user = None, h_current_cycle = Some 1, h_current_user = Some 1,
       h_worker_id = None\<rparr>,
      \<lparr>h_url = ''/b'', h_method = ''GET'', h_status = 200, h_started = 0, h_elapsed = 2000000,
       h_cycle = None, h_user = None, h_current_cycle = Some 1, h_current_user = Some 1,
       h_worker_id = None\<rparr>]\<rparr>"

definition hit_args :: hit_data where
  "hit_args =
     \<lparr>d_url = Given ''/'', d_method = Given ''GET'', d_status = Given 200, d_started = Given 0,
      d_elapsed = Given (Number 2), d_loads_status = Given None, d_worker_id = Missing\<rparr>"

text \<open>
  A run that was started at second 0 and not stopped, with the test \<open>b\<close> started at
  second 1 and stopped at second 3 and the test \<open>a\<close> started at second 5 and not
  stopped.
\<close>

definition status_1_1 :: loads_status where
  "status_1_1 = (None, None, Some 1, Some 1)"

definition one_unfinished :: TestResult where
  "one_unfinished =
     startTest ''a'' status_1_1 None 5000000
       (stopTest ''b'' status_1_1 None 3000000
         (startTest ''b'' status_1_1 None 1000000
           (startTestRun None 0 TestResult_init)))"

text \<open>A fresh sink with the observers 1 and 2 added in this order, and nothing pushed.\<close>

definition two_observers :: world where
  "two_observers = \<lparr>sink = add_observer 2 (add_observer 1 TestResult_init), pushed = []\<rparr>"

text \<open>A deserialiser for evaluation: a frame is its own event, the empty frame is malformed.\<close>

definition frame_loads :: "string \<Rightarrow> string option" where
  "frame_loads frame = (if frame = [] then None else Some frame)"

text \<open>
  Decisions for two workers and the cycle sizes 2 and 1: the first call of worker 1
  blocks, and what it waits for is done only after worker 0 has gone on to the cycle
  size 1.
\<close>

definition late_wake :: "decision list" where
  "late_wake =
     [Runs False, Runs True, Runs False, Runs False, Woken 1, Runs False, Runs False,
      Runs False, Runs False]"

text \<open>A scenario that always succeeds, and a world with a fresh sink.\<close>

definition passing :: report where
  "passing = \<lparr>rep_test = ''test_x'', rep_cycle = None, rep_user = None, rep_worker = None,
     rep_outcome = Success\<rparr>"

definition fresh_world :: world where
  "fresh_world = \<lparr>sink = TestResult_init, pushed = []\<rparr>"

section \<open>Properties of the workload plan\<close>

lemma sum_cycles_times_user:
  "sum_list (map (\<lambda>cycle. cycle * user) cs) = user * sum_list (cs :: int list)"
  by (induction cs) (simp_all add: algebra_simps)

lemma foldl_total:
  "foldl (\<lambda>total user. total + sum_list (map (\<lambda>cycle. cycle * user) cs)) t us
     = t + (\<Sum>u\<leftarrow>us. u * sum_list (cs :: int list))"
  by (induction us arbitrary: t) (simp_all add: sum_cycles_times_user)

text \<open>\<open>str_split\<close> keeps the text and the order of the fields: joining them gives the
  string back.\<close>

lemma str_split_nonempty: "str_split sep s \<noteq> []"
  by (induction s) simp_all

lemma str_split_join: "concat (map (\<lambda>f. sep # f) (str_split sep s)) = sep # s"
proof (induction s)
  case Nil
  show ?case by simp
next
  case (Cons c s)
  obtain f fs where "str_split sep s = f # fs"
    using str_split_nonempty [of sep s] by (cases "str_split sep s") auto
  with Cons show ?case by auto
qed

lemma ints_of_Some:
  "ints_of fs = Some vs \<longleftrightarrow> map py_int fs = map Some vs"
proof (induction fs arbitrary: vs)
  case Nil
  then show ?case by auto
next
  case (Cons f fs)
  show ?case
  proof (cases vs)
    case Nil
    then show ?thesis by (simp split: option.splits)
  next
    case (Cons v vs')
    with Cons.IH [of vs'] show ?thesis by (auto split: option.splits)
  qed
qed

lemma ints_of_None:
  "ints_of fs = None \<longleftrightarrow> (\<exists>f \<in> set fs. py_int f = None)"
  by (induction fs) (auto split: option.splits)

lemma compute_parsed:
  assumes "parse_spec (arg_users a) = Some us" and "parse_spec (arg_cycles a) = Some cs"
  shows "compute a =
           Inr ((case arg_agents a of None \<Rightarrow> 1 | Some n \<Rightarrow> n) * (\<Sum>u\<leftarrow>us. u * sum_list cs),
                cs, us, arg_agents a)"
  using assms by (simp add: compute_def foldl_total split: option.splits)

lemma compute_unparsed:
  assumes "parse_spec (arg_users a) = None \<or> parse_spec (arg_cycles a) = None"
  shows "compute a = Inl ValueError"
  using assms by (auto simp: compute_def split: option.splits)

lemma run_compute_error: "compute a = Inl e \<Longrightarrow> run ds a = Inl e"
  by (simp add: run_def)

lemma parse_spec_None:
  "parse_spec spec = None \<longleftrightarrow> (\<exists>f \<in> set (str_split CHR '':'' spec). py_int f = None)"
  by (simp add: parse_spec_def ints_of_None)

lemma parse_spec_values:
  assumes "parse_spec spec = Some vs"
  shows "map (the \<circ> py_int) (str_split CHR '':'' spec) = vs"
proof -
  have "map (the \<circ> py_int) fs = ws" if "map py_int fs = map Some ws" for fs ws
    using that by (induction fs arbitrary: ws) auto
  with assms show ?thesis
    by (simp add: parse_spec_def ints_of_Some)
qed

lemmas literal_simps =
  parse_spec_def py_int_def strip_def is_space_def unsigned_val_def is_digit_def digit_val_def

text \<open>
  C1. For every users spec and cycles spec that parse to lists of positive integers and
  every optional agent count, \<open>_compute\<close> returns as expected total the agent count (1
  when none is given) times the sum over the user tiers \<open>u\<close> of \<open>u\<close> times the sum of
  the cycle sizes, and it returns the cycle sizes and the user tiers in the order of
  the fields of their specs.
\<close>

theorem compute_expected_total:
  assumes "parse_spec (arg_users a) = Some us" and "parse_spec (arg_cycles a) = Some cs"
    and "\<forall>u \<in> set us. 1 \<le> u" and "\<forall>c \<in> set cs. 1 \<le> c"
  shows "compute a =
           Inr ((case arg_agents a of None \<Rightarrow> 1 | Some n \<Rightarrow> n) * (\<Sum>u\<leftarrow>us. u * sum_list cs),
                cs, us, arg_agents a)
         \<and> map Some us = map py_int (str_split CHR '':'' (arg_users a))
         \<and> map Some cs = map py_int (str_split CHR '':'' (arg_cycles a))"
  using assms(1,2) compute_parsed [OF assms(1,2)]
  by (simp add: parse_spec_def ints_of_Some)

theorem compute_expected_total_witness:
  "compute \<lparr>arg_users = ''1:2'', arg_cycles = ''3:4'', arg_agents = Some 2\<rparr>
     = Inr (42, [3, 4], [1, 2], Some 2)"
  using compute_expected_total
    [of "\<lparr>arg_users = ''1:2'', arg_cycles = ''3:4'', arg_agents = Some 2\<rparr>" "[1, 2]" "[3, 4]"]
  by (simp add: literal_simps)

text \<open>
  C3, as the specification states it, fails: the users spec \<open>0\<close> and the cycles spec
  \<open>2:0\<close> hold values less than 1, and \<open>_compute\<close> returns a plan with the tier 0 and
  the cycle size 0 in it.
\<close>

theorem compute_nonpositive_counterexample:
  "compute \<lparr>arg_users = ''0'', arg_cycles = ''2:0'', arg_agents = None\<rparr>
     = Inr (0, [2, 0], [0], None)"
  by (simp add: compute_def literal_simps)

text \<open>
  C3, amended. \<open>_compute\<close> checks no range. It fails, with ValueError and before any
  worker of \<open>run\<close> exists, exactly when a field of the users spec or of the cycles spec
  is no integer literal; when every field is one, values less than 1 included, it
  returns the plan with exactly these values as tiers and cycle sizes.
\<close>

theorem compute_no_range_check:
  "(if \<exists>f \<in> set (str_split CHR '':'' (arg_users a)) \<union> set (str_split CHR '':'' (arg_cycles a)).
         py_int f = None
    then compute a = Inl ValueError \<and> run ds a = Inl ValueError
    else compute a =
      (let us = map (the \<circ> py_int) (str_split CHR '':'' (arg_users a));
           cs = map (the \<circ> py_int) (str_split CHR '':'' (arg_cycles a))
       in Inr ((case arg_agents a of None \<Rightarrow> 1 | Some n \<Rightarrow> n) * (\<Sum>u\<leftarrow>us. u * sum_list cs),
               cs, us, arg_agents a)))"
proof (cases "parse_spec (arg_users a) = None \<or> parse_spec (arg_cycles a) = None")
  case True
  then have "compute a = Inl ValueError"
    by (rule compute_unparsed)
  moreover from this have "run ds a = Inl ValueError"
    by (rule run_compute_error)
  moreover from True
  have "\<exists>f \<in> set (str_split CHR '':'' (arg_users a)) \<union> set (str_split CHR '':'' (arg_cycles a)).
         py_int f = None"
    by (auto simp: parse_spec_None)
  ultimately show ?thesis by simp
next
  case False
  then obtain us cs where us: "parse_spec (arg_users a) = Some us"
    and cs: "parse_spec (arg_cycles a) = Some cs"
    by auto
  have no: "\<not> (\<exists>f \<in> set (str_split CHR '':'' (arg_users a)) \<union> set (str_split CHR '':'' (arg_cycles a)).
         py_int f = None)"
    using False by (simp add: parse_spec_None bex_Un)
  have plan: "compute a =
      (let us = map (the \<circ> py_int) (str_split CHR '':'' (arg_users a));
           cs = map (the \<circ> py_int) (str_split CHR '':'' (arg_cycles a))
       in Inr ((case arg_agents a of None \<Rightarrow> 1 | Some n \<Rightarrow> n) * (\<Sum>u\<leftarrow>us. u * sum_list cs),
               cs, us, arg_agents a))"
    using compute_parsed [OF us cs] parse_spec_values [OF us] parse_spec_values [OF cs] by simp
  show ?thesis
    by (simp only: no if_False) (rule plan)
qed

theorem compute_no_range_check_witness:
  "compute \<lparr>arg_users = ''-1:2'', arg_cycles = ''0:3'', arg_agents = None\<rparr>
     = Inr (3, [0, 3], [- 1, 2], None)
   \<and> compute \<lparr>arg_users = ''2'', arg_cycles = ''x'', arg_agents = None\<rparr> = Inl ValueError"
  using compute_no_range_check [of "\<lparr>arg_users = ''-1:2'', arg_cycles = ''0:3'', arg_agents = None\<rparr>"]
    compute_no_range_check [of "\<lparr>arg_users = ''2'', arg_cycles = ''x'', arg_agents = None\<rparr>"]
  by (simp add: literal_simps)

section \<open>Properties of the hits\<close>

lemma get_hits_filter:
  "get_hits url cycle r =
     filter (\<lambda>h. (cycle = None \<or> h_current_cycle h = cycle) \<and> (url = None \<or> Some (h_url h) = url))
       (hits r)"
  unfolding get_hits_def by (rule filter_cong) auto

text \<open>
  C9. For every state of the sink and every optional url and cycle filter,
  \<open>average_request_time\<close> returns 0 when no hit passes the filters, and then divides
  nothing; when some hits pass, it returns the arithmetic mean of their elapsed times in
  seconds. It raises no ZeroDivisionError in either case. The hits that pass are those
  whose url and current cycle equal the filters that are given. (Floats are taken as
  exact reals.)
\<close>

theorem average_request_time_mean:
  "average_request_time url cycle r =
     (if get_hits url cycle r = [] then Inr 0
      else Inr ((\<Sum>h\<leftarrow>get_hits url cycle r. total_seconds (h_elapsed h))
                 / real (length (get_hits url cycle r))))
   \<and> get_hits url cycle r =
       filter (\<lambda>h. (cycle = None \<or> h_current_cycle h = cycle) \<and> (url = None \<or> Some (h_url h) = url))
         (hits r)"
  by (simp add: average_request_time_def float_div_def get_hits_filter Let_def)

theorem average_request_time_mean_witness:
  "average_request_time None (Some 1) two_hits = Inr (3 / 2)
   \<and> average_request_time (Some ''/a'') None two_hits = Inr 1
   \<and> average_request_time (Some ''/c'') None two_hits = Inr 0"
  using average_request_time_mean [of None "Some 1" two_hits]
    average_request_time_mean [of "Some ''/a''" None two_hits]
    average_request_time_mean [of "Some ''/c''" None two_hits]
  by (simp add: two_hits_def TestResult_init_def total_seconds_def)

section \<open>Properties of \<open>Hit.__init__\<close>\<close>

lemma round_half_away_close: "\<bar>real_of_int (round_half_away x) - x\<bar> \<le> 1 / 2"
proof (cases "0 \<le> x")
  case True
  have "real_of_int \<lfloor>x + 1 / 2\<rfloor> \<le> x + 1 / 2" and "x + 1 / 2 < real_of_int \<lfloor>x + 1 / 2\<rfloor> + 1"
    by linarith+
  then have "\<bar>real_of_int \<lfloor>x + 1 / 2\<rfloor> - x\<bar> \<le> 1 / 2"
    by linarith
  with True show ?thesis
    by (simp only: round_half_away_def if_True)
next
  case False
  have "real_of_int \<lceil>x - 1 / 2\<rceil> - 1 < x - 1 / 2" and "x - 1 / 2 \<le> real_of_int \<lceil>x - 1 / 2\<rceil>"
    by linarith+
  then have "\<bar>real_of_int \<lceil>x - 1 / 2\<rceil> - x\<bar> \<le> 1 / 2"
    by linarith
  with False show ?thesis
    by (simp only: round_half_away_def if_False)
qed

lemma round_half_away_whole:
  assumes "x \<in> \<int>"
  shows "real_of_int (round_half_away x) = x"
proof -
  from assms obtain k where k: "x = real_of_int k"
    by (auto elim: Ints_cases)
  have "\<lfloor>real_of_int k + 1 / 2\<rfloor> = k" and "\<lceil>real_of_int k - 1 / 2\<rceil> = k"
    by linarith+
  then show ?thesis
    by (simp add: round_half_away_def k)
qed

lemma round_half_away_bounds:
  assumes "real_of_int a \<le> x" and "x \<le> real_of_int b"
  shows "a \<le> round_half_away x" and "round_half_away x \<le> b"
proof -
  from assms have "a \<le> \<lfloor>x + 1 / 2\<rfloor>" and "\<lfloor>x + 1 / 2\<rfloor> \<le> b"
    by (simp_all add: le_floor_iff floor_le_iff)
  moreover from assms have "a \<le> \<lceil>x - 1 / 2\<rceil>" and "\<lceil>x - 1 / 2\<rceil> \<le> b"
    by (simp_all add: le_ceiling_iff ceiling_le_iff)
  ultimately show "a \<le> round_half_away x" and "round_half_away x \<le> b"
    by (simp_all add: round_half_away_def)
qed

lemma timedelta_of_days_in_range:
  assumes "\<bar>e\<bar> \<le> 999999999"
  shows "timedelta_of_days e = Inr (round_half_away (e * 86400000000))"
proof -
  let ?us = "round_half_away (e * 86400000000)"
  from assms have "real_of_int (- 999999999 * 86400000000) \<le> e * 86400000000"
    and "e * 86400000000 \<le> real_of_int (999999999 * 86400000000)"
    by simp_all
  from round_half_away_bounds [OF this]
  have lo: "- 999999999 * 86400000000 \<le> ?us" and hi: "?us \<le> 999999999 * 86400000000"
    by simp_all
  from zdiv_mono1 [OF lo, of 86400000000] zdiv_mono1 [OF hi, of 86400000000]
  have "- 999999999 \<le> ?us div 86400000000" and "?us div 86400000000 \<le> 999999999"
    by simp_all
  then show ?thesis
    by (simp add: timedelta_of_days_def Let_def)
qed

text \<open>
  C10, as stated, fails in three places. None of the parameters but \<open>worker_id\<close> has a
  default, \<open>loads_status\<close> included, so a call without one of them raises TypeError and
  builds no \<open>Hit\<close>. \<open>timedelta(elapsed)\<close> raises OverflowError for a number of days
  beyond 999999999. And \<open>timedelta(elapsed)\<close> keeps whole microseconds only: for a float
  that is no whole number of microseconds, here a a millionth of a millionth of a day, \<open>total_seconds()\<close>
  (0) is not the number times 86400.
\<close>

theorem Hit_init_counterexample:
  "Hit_init (hit_args\<lparr>d_loads_status := Missing\<rparr>) = Inl TypeError
   \<and> Hit_init (hit_args\<lparr>d_url := Missing\<rparr>) = Inl TypeError
   \<and> Hit_init (hit_args\<lparr>d_method := Missing\<rparr>) = Inl TypeError
   \<and> Hit_init (hit_args\<lparr>d_status := Missing\<rparr>) = Inl TypeError
   \<and> Hit_init (hit_args\<lparr>d_started := Missing\<rparr>) = Inl TypeError
   \<and> Hit_init (hit_args\<lparr>d_elapsed := Given (Number 1000000000)\<rparr>) = Inl OverflowError
   \<and> Hit_init (hit_args\<lparr>d_elapsed := Given (Number (1 / 1000000000000))\<rparr>)
       = Inr \<lparr>h_url = ''/'', h_method = ''GET'', h_status = 200, h_started = 0, h_elapsed = 0,
              h_cycle = None, h_user = None, h_current_cycle = None, h_current_user = None,
              h_worker_id = None\<rparr>
   \<and> total_seconds 0 \<noteq> 1 / 1000000000000 * 86400"
  by (simp add: Hit_init_def hit_args_def timedelta_of_days_def round_half_away_def
      total_seconds_def)

text \<open>
  C10, amended. When \<open>add_hit\<close> is called with \<open>url\<close>, \<open>method\<close>, \<open>status\<close>, \<open>started\<close>,
  \<open>elapsed\<close> and \<open>loads_status\<close> all given, \<open>elapsed\<close> being a plain number \<open>e\<close>, an integer
  or a float, of at most 999999999 in absolute value, the stored \<open>Hit\<close>'s elapsed is
  \<open>timedelta(e)\<close>, that is \<open>e\<close> days to the nearest microsecond: its \<open>total_seconds()\<close> is
  within half a microsecond of \<open>e\<close> times 86400, and equal to it whenever \<open>e\<close> days are a
  whole number of microseconds (as for every integer, and for 0.5). And when the
  \<open>loads_status\<close> given is \<open>None\<close>, the fields cycle, user, current_cycle and current_user
  are all \<open>None\<close>.
\<close>

theorem Hit_init_number_elapsed:
  assumes "d_url d = Given url" and "d_method d = Given m" and "d_status d = Given st"
    and "d_started d = Given t0" and "d_loads_status d = Given ls"
    and "d_elapsed d = Given (Number e)" and "\<bar>e\<bar> \<le> 999999999"
  shows "\<exists>h. add_hit d r = Inr (r\<lparr>hits := hits r @ [h]\<rparr>)
           \<and> Hit_init d = Inr h
           \<and> Inr (h_elapsed h) = timedelta_of_days e
           \<and> \<bar>total_seconds (h_elapsed h) - e * 86400\<bar> \<le> 1 / 2000000
           \<and> (e * 86400000000 \<in> \<int> \<longrightarrow> total_seconds (h_elapsed h) = e * 86400)
           \<and> (ls = None \<longrightarrow> h_cycle h = None \<and> h_user h = None
                 \<and> h_current_cycle h = None \<and> h_current_user h = None)"
proof -
  let ?us = "round_half_away (e * 86400000000)"
  note td = timedelta_of_days_in_range [OF assms(7)]
  obtain cycle user current_cycle current_user where st:
    "(case ls of None \<Rightarrow> (None, None, None, None) | Some st \<Rightarrow> st)
       = (cycle, user, current_cycle, current_user)"
    by (cases "case ls of None \<Rightarrow> (None, None, None, None) | Some st \<Rightarrow> st") auto
  let ?h = "\<lparr>h_url = url, h_method = m, h_status = st, h_started = t0, h_elapsed = ?us,
    h_cycle = cycle, h_user = user, h_current_cycle = current_cycle,
    h_current_user = current_user,
    h_worker_id = (case d_worker_id d of Missing \<Rightarrow> None | Given w \<Rightarrow> w)\<rparr>"
  have init: "Hit_init d = Inr ?h"
    using assms(1-6) td st by (simp add: Hit_init_def)
  then have "add_hit d r = Inr (r\<lparr>hits := hits r @ [?h]\<rparr>)"
    by (simp add: add_hit_def)
  moreover have "Inr (h_elapsed ?h) = timedelta_of_days e"
    using td by simp
  moreover have "\<bar>total_seconds (h_elapsed ?h) - e * 86400\<bar> \<le> 1 / 2000000"
    using round_half_away_close [of "e * 86400000000"] by (simp add: total_seconds_def field_simps)
  moreover have "total_seconds (h_elapsed ?h) = e * 86400" if "e * 86400000000 \<in> \<int>"
    using round_half_away_whole [OF that] by (simp add: total_seconds_def)
  moreover have "h_cycle ?h = None \<and> h_user ?h = None
      \<and> h_current_cycle ?h = None \<and> h_current_user ?h = None" if "ls = None"
    using st that by simp
  ultimately show ?thesis
    using init by blast
qed

theorem Hit_init_number_elapsed_witness:
  "(\<exists>h. Hit_init hit_args = Inr h \<and> total_seconds (h_elapsed h) = 172800
        \<and> h_cycle h = None \<and> h_user h = None \<and> h_current_cycle h = None
        \<and> h_current_user h = None)
   \<and> (\<exists>h. Hit_init (hit_args\<lparr>d_elapsed := Given (Number (1 / 2))\<rparr>) = Inr h
        \<and> total_seconds (h_elapsed h) = 43200)"
  using Hit_init_number_elapsed [of hit_args "''/''" "''GET''" 200 0 None 2 TestResult_init]
    Hit_init_number_elapsed [of "hit_args\<lparr>d_elapsed := Given (Number (1 / 2))\<rparr>"
      "''/''" "''GET''" 200 0 None "1 / 2" TestResult_init]
  by (auto simp: hit_args_def)

section \<open>Properties of the test queries\<close>

lemma py_sum_all_Some: "py_sum acc (map Some ds) = Inr (acc + sum_list ds)"
  by (induction ds arbitrary: acc) simp_all

lemma py_sum_None: "None \<in> set ds \<Longrightarrow> py_sum acc ds = Inl TypeError"
  by (induction acc ds rule: py_sum.induct) auto

text \<open>
  What \<open>average_test_duration\<close> does return: when every test that passes the filters
  has an end, the mean of their durations (\<open>None\<close> when no test passes); when one of
  them has no end, TypeError.
\<close>

lemma average_test_duration_all_finished:
  assumes "\<forall>t \<in> set (get_tests test cycle None r). finished t"
  shows "average_test_duration test cycle r =
           (if get_tests test cycle None r = [] then Inr None
            else Inr (Some (real_of_int (\<Sum>t\<leftarrow>get_tests test cycle None r. seconds (the (t_end t) - t_start t))
                            / real (length (get_tests test cycle None r)))))"
proof -
  have eq: "map Test_duration (get_tests test cycle None r)
      = map Some (map (\<lambda>t. seconds (the (t_end t) - t_start t)) (get_tests test cycle None r))"
    using assms by (auto simp: Test_duration_def finished_def)
  show ?thesis
    unfolding average_test_duration_def Let_def eq py_sum_all_Some
    by (simp add: float_div_def)
qed

lemma average_test_duration_unfinished:
  assumes "t \<in> set (get_tests test cycle None r)" and "\<not> finished t"
  shows "average_test_duration test cycle r = Inl TypeError"
proof -
  from assms have "None \<in> set (map Test_duration (get_tests test cycle None r))"
    by (force simp: Test_duration_def finished_def)
  then have "py_sum 0 (map Test_duration (get_tests test cycle None r)) = Inl TypeError"
    by (rule py_sum_None)
  with assms(1) show ?thesis
    by (auto simp: average_test_duration_def Let_def)
qed

text \<open>
  C5 does not hold of the code. In the state \<open>one_unfinished\<close> the finished tests are
  \<open>b\<close> alone, with a duration of 2 seconds, so the claim gives the mean 2; the
  method raises TypeError, because the unfinished test \<open>a\<close> has put \<open>None\<close> into the list
  that is summed.
\<close>

theorem average_test_duration_raises:
  "average_test_duration None None one_unfinished = Inl TypeError
   \<and> map Test_duration (get_tests None None (Some True) one_unfinished) = [Some 2]
   \<and> map Test_duration (get_tests None None None one_unfinished) = [Some 2, None]"
  by (simp add: average_test_duration_def get_tests_def one_unfinished_def status_1_1_def
      startTestRun_def stopTest_def TestResult_init_def Test_init_def Test_duration_def
      finished_def seconds_def)

text \<open>
  What \<open>tests_per_second\<close> does return: with both times recorded and a difference
  whose seconds are not 0, the number of tests divided by these seconds; with no stop
  time, TypeError.
\<close>

lemma tests_per_second_stopped:
  assumes "start_time r = Some t0" and "stop_time r = Some t1" and "seconds (t1 - t0) \<noteq> 0"
  shows "tests_per_second r = Inr (real (nb_tests r) / real_of_int (seconds (t1 - t0)))"
    and "duration now r = Inr (seconds (t1 - t0))"
  using assms by (simp_all add: tests_per_second_def duration_def float_div_def)

lemma tests_per_second_not_stopped:
  assumes "stop_time r = None"
  shows "tests_per_second r = Inl TypeError"
  using assms by (simp add: tests_per_second_def)

text \<open>
  C7 does not hold of the code. In the state \<open>one_unfinished\<close> the start of the run is
  recorded and \<open>stopTestRun\<close> has not been called; at second 8 the run's \<open>duration\<close> is 8
  and there are 2 tests, so the claim gives 2 / 8. \<open>tests_per_second\<close> raises TypeError:
  it subtracts from \<open>stop_time\<close>, which is \<open>None\<close>, where \<open>duration\<close> and with it
  \<open>requests_per_second\<close> take the clock's reading instead.
\<close>

theorem tests_per_second_raises:
  "tests_per_second one_unfinished = Inl TypeError
   \<and> start_time one_unfinished = Some 0
   \<and> nb_tests one_unfinished = 2
   \<and> duration 8000000 one_unfinished = Inr 8
   \<and> requests_per_second 8000000 one_unfinished = Inr 0"
  by (simp add: tests_per_second_def duration_def requests_per_second_def nb_tests_def
      one_unfinished_def status_1_1_def startTestRun_def stopTest_def TestResult_init_def
      Test_init_def seconds_def float_div_def)

section \<open>Properties of the observers' notification\<close>

lemma plain_method_observers:
  "plain_method c now r = Inr r' \<Longrightarrow> observers r' = observers r"
  by (cases c)
    (auto simp: startTestRun_def stopTestRun_def stopTest_def addError_def addFailure_def
      addSuccess_def add_hit_def socket_open_def socket_close_def socket_message_def
      split: sum.splits prod.splits elim!: startTest.elims)

text \<open>
  What the wrapper does: a call of any event method but \<open>socket_close\<close> that returns
  is followed by one push of the call to each observer, in the order of registration.
\<close>

lemma wrapped_name: "name_of c \<in> set wrapped_names \<longleftrightarrow> \<not> is_socket_close c"
  by (cases c) (simp_all add: wrapped_names_def)

lemma call_method_pushes:
  assumes "call_method c now w = Inr w'" and "\<not> is_socket_close c"
  shows "pushed w' = pushed w @ map (\<lambda>obs. (obs, c)) (observers (sink w))"
    and "plain_method c now (sink w) = Inr (sink w')"
proof -
  from assms(1) obtain r where r: "plain_method c now (sink w) = Inr r"
    by (cases "plain_method c now (sink w)") (simp_all add: call_method_def)
  from r have "observers r = observers (sink w)"
    by (rule plain_method_observers)
  with assms r have "w' = \<lparr>sink = r, pushed = pushed w @ map (\<lambda>obs. (obs, c)) (observers (sink w))\<rparr>"
    by (simp add: call_method_def wrapped_name)
  with r show "pushed w' = pushed w @ map (\<lambda>obs. (obs, c)) (observers (sink w))"
    and "plain_method c now (sink w) = Inr (sink w')"
    by simp_all
qed

lemma call_method_socket_close:
  "call_method (Socket_close st wid) now w
     = Inr \<lparr>sink = socket_close st wid (sink w), pushed = pushed w\<rparr>"
  by (simp add: call_method_def wrapped_names_def)

lemma replay_pushes:
  assumes "replay cs w = Inr w'" and "\<forall>c \<in> set (map fst cs). \<not> is_socket_close c"
  shows "pushed w' = pushed w @ concat (map (\<lambda>c. map (\<lambda>obs. (obs, c)) (observers (sink w))) (map fst cs))
    \<and> observers (sink w') = observers (sink w)"
  using assms
proof (induction cs arbitrary: w)
  case Nil
  then show ?case by simp
next
  case (Cons a cs)
  obtain c now where a: "a = (c, now)" by (cases a)
  from Cons.prems(1) a obtain w1 where w1: "call_method c now w = Inr w1"
    and rest: "replay cs w1 = Inr w'"
    by (cases "call_method c now w") simp_all
  from Cons.prems(2) a have c: "\<not> is_socket_close c"
    and cs: "\<forall>c \<in> set (map fst cs). \<not> is_socket_close c"
    by simp_all
  have obs: "observers (sink w1) = observers (sink w)"
    using call_method_pushes(2) [OF w1 c] by (rule plain_method_observers)
  from Cons.IH [OF rest cs] call_method_pushes(1) [OF w1 c] obs a
  show ?case by simp
qed

text \<open>
  C2 does not hold of the code. \<open>socket_close\<close> is one of the enumerated events, and
  its call changes the state (the gauge goes from 0 to -1), but no observer is pushed
  anything: the tuple of names in \<open>__getattribute__\<close> lists \<open>socket_open\<close> and
  \<open>socket_message\<close> and leaves \<open>socket_close\<close> out. The same call of \<open>socket_open\<close>
  pushes to both observers, in the order they were added.
\<close>

theorem socket_close_not_pushed:
  "call_method (Socket_close status_1_1 None) 0 two_observers
     = Inr (two_observers\<lparr>sink := (sink two_observers)\<lparr>sockets := - 1\<rparr>\<rparr>)
   \<and> call_method (Socket_open status_1_1 None) 0 two_observers
     = Inr \<lparr>sink = (sink two_observers)\<lparr>sockets := 1\<rparr>,
            pushed = [(1, Socket_open status_1_1 None), (2, Socket_open status_1_1 None)]\<rparr>"
  by (simp add: call_method_def wrapped_names_def two_observers_def add_observer_def
      TestResult_init_def socket_close_def socket_open_def)

section \<open>Properties of the receive loop\<close>

lemma receive_loop_stopped:
  "stopped c \<Longrightarrow> receive_loop expected loads msgs c = Inr (c, msgs)"
  by (cases msgs) simp_all

lemma recv_result_counts:
  assumes "decode loads msg = Inr d"
  shows "recv_result expected loads msg c =
           Inr (c\<lparr>echoed := echoed c @ [d], received := received c + 1,
                  stopped := stopped c \<or> received c + 1 = expected\<rparr>)"
  using assms by (simp add: recv_result_def)

lemma receive_loop_running:
  assumes "\<forall>msg \<in> set msgs. \<exists>d. decode loads msg = Inr d"
    and "\<not> stopped c" and "received c < expected"
  shows "\<exists>c'. receive_loop expected loads msgs c
             = Inr (c', drop (nat (expected - received c)) msgs)
           \<and> received c' = min expected (received c + int (length msgs))
           \<and> (stopped c' \<longleftrightarrow> expected \<le> received c + int (length msgs))
           \<and> map Inr (echoed c')
             = map Inr (echoed c) @ map (decode loads) (take (nat (expected - received c)) msgs)"
  using assms
proof (induction msgs arbitrary: c)
  case Nil
  then show ?case by simp
next
  case (Cons msg msgs)
  from Cons.prems(1) obtain d where d: "decode loads msg = Inr d"
    by auto
  define c1 where "c1 = c\<lparr>echoed := echoed c @ [d], received := received c + 1,
    stopped := stopped c \<or> received c + 1 = expected\<rparr>"
  have step: "receive_loop expected loads (msg # msgs) c = receive_loop expected loads msgs c1"
    using Cons.prems(2) recv_result_counts [OF d, of expected c] by (simp add: c1_def)
  have suc: "nat (expected - received c) = Suc (nat (expected - received c1))"
    using Cons.prems(3) by (simp add: c1_def)
  show ?case
  proof (cases "received c + 1 = expected")
    case True
    then have "stopped c1" and "nat (expected - received c1) = 0"
      by (simp_all add: c1_def)
    with step suc d True show ?thesis
      by (auto simp: receive_loop_stopped c1_def)
  next
    case False
    with Cons.prems have "\<not> stopped c1" and "received c1 < expected"
      by (simp_all add: c1_def)
    from Cons.IH [OF _ this] Cons.prems(1)
    obtain c' where c': "receive_loop expected loads msgs c1
             = Inr (c', drop (nat (expected - received c1)) msgs)"
      "received c' = min expected (received c1 + int (length msgs))"
      "stopped c' \<longleftrightarrow> expected \<le> received c1 + int (length msgs)"
      "map Inr (echoed c')
             = map Inr (echoed c1) @ map (decode loads) (take (nat (expected - received c1)) msgs)"
      by auto
    have "received c1 = received c + 1" and "echoed c1 = echoed c @ [d]"
      by (simp_all add: c1_def)
    with c' step suc d show ?thesis
      by (simp add: add.assoc)
  qed
qed

text \<open>
  C8. For every expected total \<open>N \<ge> 1\<close> and every sequence of inbound messages that
  are result events (each has a first frame that deserialises), in whatever order they
  arrive, the receive loop counts one per message and stops exactly when the counter
  reaches \<open>N\<close>: the counter ends at the smaller of \<open>N\<close> and the number of messages, the
  loop is stopped if and only if at least \<open>N\<close> messages came, the events given to the
  echo are those of the first \<open>N\<close> messages, and every message after the \<open>N\<close>th is left
  untaken. As this holds of every sequence, it holds of every prefix of the arrivals.
\<close>

theorem receive_loop_stops_at_expected:
  assumes "1 \<le> N" and "\<forall>msg \<in> set msgs. \<exists>d. decode loads msg = Inr d"
  shows "\<exists>c. receive_loop N loads msgs coordinator_init = Inr (c, drop (nat N) msgs)
           \<and> received c = min N (int (length msgs))
           \<and> (stopped c \<longleftrightarrow> N \<le> int (length msgs))
           \<and> map Inr (echoed c) = map (decode loads) (take (nat N) msgs)"
  using receive_loop_running [of msgs loads coordinator_init N] assms
  by (simp add: coordinator_init_def)

theorem receive_loop_stops_at_expected_witness:
  "receive_loop 2 frame_loads [[''a''], [''b''], [''c'']] coordinator_init
     = Inr (\<lparr>received = 2, echoed = [''a'', ''b''], stopped = True\<rparr>, [[''c'']])
   \<and> receive_loop 2 frame_loads [[''c'']] coordinator_init
     = Inr (\<lparr>received = 1, echoed = [''c''], stopped = False\<rparr>, [])"
  using receive_loop_stops_at_expected [of 2 "[[''a''], [''b''], [''c'']]" frame_loads]
    receive_loop_stops_at_expected [of 2 "[[''c'']]" frame_loads]
  by (auto simp: decode_def frame_loads_def coordinator_init_def recv_result_def)

section \<open>Properties of the local run\<close>

lemma rounds_Cons: "rounds (c # cs) = replicate (nat c) c @ rounds cs"
  by (simp add: rounds_def)

lemma rounds_Nil: "rounds [] = []"
  by (simp add: rounds_def)

lemma pending_Outer: "pending i user (Outer cycles) = worker_script cycles user i"
proof -
  have "concat (map (\<lambda>c. [Invoke i user c (context_of user c), Yield i]) (replicate k c))
      = concat (replicate k [Invoke i user c (context_of user c), Yield i])" for k c
    by (induction k) simp_all
  then have "concat (map (\<lambda>c. [Invoke i user c (context_of user c), Yield i]) (rounds cs))
      = worker_script cs user i" for cs
    by (induction cs) (simp_all add: rounds_Cons rounds_Nil worker_script_def)
  then show ?thesis
    by (simp add: pending_def)
qed

text \<open>A worker that has no invocation left returns, and leaves the trace as it is.\<close>

lemma resume_done:
  assumes "todo p = []"
  shows "\<exists>t. resume num user p s = (s\<lparr>ob := t\<rparr>, None)
           \<and> (t = ob s \<or> ob_current_user t = Some user)"
  using assms
proof (induction num user p s rule: resume.induct)
  case (1 num user s)
  show ?case by (auto intro: exI [of _ "ob s"])
next
  case (2 num user cycle cs s)
  then show ?case by (auto simp: rounds_Cons)
next
  case (3 num user cycle cs s)
  then show ?case by simp
next
  case (4 num user cycle k cs s)
  then show ?case by simp
qed

text \<open>
  A worker that has invocations left gets to the next of them: it sees the attributes
  \<open>seen\<close>, which are also those that the test object has afterwards.
\<close>

lemma resume_next:
  assumes "todo p = c # rest"
  shows "resume num user p s
           = (s\<lparr>ob := seen user (ob s) p,
                 trace := trace s @ [Invoke num user c (seen user (ob s) p)]\<rparr>,
              Some (after p))"
  using assms
proof (induction num user p s rule: resume.induct)
  case (1 num user s)
  then show ?case by (simp add: rounds_def)
next
  case (2 num user cycle cs s)
  show ?case
  proof (cases "nat cycle")
    case 0
    with 2 show ?thesis by (simp add: rounds_Cons)
  next
    case (Suc k)
    with 2 show ?thesis by (simp add: rounds_Cons context_of_def)
  qed
next
  case (3 num user cycle cs s)
  then show ?case by simp
next
  case (4 num user cycle k cs s)
  then show ?case by simp
qed

lemma after_todo: "todo p = c # rest \<Longrightarrow> todo (after p) = rest"
proof (induction p rule: after.induct)
  case 1
  then show ?case by (simp add: rounds_def)
next
  case (2 cycle cs)
  then show ?case by (simp add: rounds_Cons)
next
  case (3 cycle cs)
  then show ?case by simp
next
  case (4 cycle k cs)
  then show ?case by auto
qed

lemma after_Inner: "todo p = c # rest \<Longrightarrow> \<exists>k cs. after p = Inner c k cs"
proof (induction p rule: after.induct)
  case 1
  then show ?case by (simp add: rounds_def)
next
  case (2 cycle cs)
  then show ?case by (simp add: rounds_Cons)
next
  case (3 cycle cs)
  then show ?case by simp
next
  case (4 cycle k cs)
  then show ?case by simp
qed

lemma seen_user:
  assumes "todo p = c # rest"
  shows "ob_current_user (seen user t p) = Some user \<or> (\<exists>k cs. p = Inner c (Suc k) cs \<and> seen user t p = t)"
  using assms by (cases "(user, t, p)" rule: seen.cases) (auto simp: context_of_def)

lemma pending_next:
  "todo p = c # rest \<Longrightarrow>
     pending i user p = Invoke i user c (context_of user c) # Yield i # pending i user (after p)"
  by (simp add: pending_def after_todo)

lemma pending_done: "todo p = [] \<Longrightarrow> pending i user p = []"
  by (simp add: pending_def)

text \<open>What one turn of the hub can do.\<close>

lemma hub_step_cases [case_names idle returns calls blocks woken]:
  obtains
    (idle) "hub_step d s = s" and "ready s = [] \<or> (\<exists>num. d = Woken num)"
  | (returns) w q t where "ready s = w # q" and "todo (w_pos w) = []"
      and "hub_step d s = s\<lparr>ob := t, ready := q\<rparr>"
      and "t = ob s \<or> ob_current_user t = Some (w_user w)"
  | (calls) w q c rest where "d = Runs False" and "ready s = w # q"
      and "todo (w_pos w) = c # rest"
      and "hub_step d s =
        s\<lparr>ob := seen (w_user w) (ob s) (w_pos w),
          trace := trace s
            @ [Invoke (w_num w) (w_user w) c (seen (w_user w) (ob s) (w_pos w)), Yield (w_num w)],
          ready := q @ [w\<lparr>w_pos := after (w_pos w)\<rparr>]\<rparr>"
  | (blocks) w q c rest where "d = Runs True" and "ready s = w # q"
      and "todo (w_pos w) = c # rest"
      and "hub_step d s =
        s\<lparr>ob := seen (w_user w) (ob s) (w_pos w),
          trace := trace s @ [Invoke (w_num w) (w_user w) c (seen (w_user w) (ob s) (w_pos w))],
          ready := q,
          waiting := waiting s @ [w\<lparr>w_pos := after (w_pos w)\<rparr>]\<rparr>"
  | (woken) w ws num where "d = Woken num"
      and "filter (\<lambda>w. w_num w = num) (waiting s) = w # ws"
      and "hub_step d s =
        s\<lparr>trace := trace s @ [Yield num],
          waiting := filter (\<lambda>w. w_num w \<noteq> num) (waiting s),
          ready := ready s @ [w]\<rparr>"
proof (cases d)
  case (Runs b)
  show ?thesis
  proof (cases "ready s")
    case Nil
    with Runs have "hub_step d s = s" by simp
    then show ?thesis using Nil by (intro idle) simp_all
  next
    case (Cons w q)
    show ?thesis
    proof (cases "todo (w_pos w)")
      case Nil
      from resume_done [OF Nil, of "w_num w" "w_user w" "s\<lparr>ready := q\<rparr>"]
      obtain t where t: "resume (w_num w) (w_user w) (w_pos w) (s\<lparr>ready := q\<rparr>)
          = (s\<lparr>ready := q, ob := t\<rparr>, None)"
        "t = ob s \<or> ob_current_user t = Some (w_user w)"
        by auto
      with Runs Cons have "hub_step d s = s\<lparr>ob := t, ready := q\<rparr>"
        by simp
      from Cons Nil this t(2) show ?thesis by (rule returns)
    next
      case todo: (Cons c rest)
      note nxt = resume_next [OF todo, of "w_num w" "w_user w" "s\<lparr>ready := q\<rparr>"]
      show ?thesis
      proof (cases b)
        case True
        with Runs Cons nxt have "hub_step d s =
            s\<lparr>ob := seen (w_user w) (ob s) (w_pos w),
              trace := trace s @ [Invoke (w_num w) (w_user w) c (seen (w_user w) (ob s) (w_pos w))],
              ready := q,
              waiting := waiting s @ [w\<lparr>w_pos := after (w_pos w)\<rparr>]\<rparr>"
          by simp
        with True Runs Cons todo show ?thesis by (intro blocks) simp_all
      next
        case False
        with Runs Cons nxt have "hub_step d s =
            s\<lparr>ob := seen (w_user w) (ob s) (w_pos w),
              trace := trace s
                @ [Invoke (w_num w) (w_user w) c (seen (w_user w) (ob s) (w_pos w)), Yield (w_num w)],
              ready := q @ [w\<lparr>w_pos := after (w_pos w)\<rparr>]\<rparr>"
          by simp
        with False Runs Cons todo show ?thesis by (intro calls) simp_all
      qed
    qed
  qed
next
  case (Woken num)
  show ?thesis
  proof (cases "filter (\<lambda>w. w_num w = num) (waiting s)")
    case Nil
    with Woken have "hub_step d s = s" by simp
    then show ?thesis using Woken by (intro idle) simp_all
  next
    case (Cons w ws)
    with Woken have "hub_step d s =
        s\<lparr>trace := trace s @ [Yield num],
          waiting := filter (\<lambda>w. w_num w \<noteq> num) (waiting s),
          ready := ready s @ [w]\<rparr>"
      by simp
    with Woken Cons show ?thesis by (rule woken)
  qed
qed

lemma filter_num_absent: "j \<notin> w_num ` set ws \<Longrightarrow> filter (\<lambda>w. w_num w = j) ws = []"
  by (induction ws) auto

lemma woken_unique:
  assumes "distinct (map w_num ws0)" and "filter (\<lambda>w. w_num w = n) ws0 = w # ws"
  shows "ws = []" and "w \<in> set ws0" and "w_num w = n"
proof -
  from assms(2) have in_f: "set (w # ws) = {x \<in> set ws0. w_num x = n}"
    by (metis set_filter)
  then show "w \<in> set ws0" and "w_num w = n"
    by auto
  from assms(1) have "distinct (map w_num (filter (\<lambda>w. w_num w = n) ws0))"
    by (rule distinct_map_filter)
  with assms(2) have d: "distinct (map w_num (w # ws))"
    by simp
  show "ws = []"
  proof (cases ws)
    case Nil
    then show ?thesis .
  next
    case (Cons x xs)
    with in_f have "w_num x = n" and "w_num w = n" by auto
    with d Cons show ?thesis by simp
  qed
qed

lemma sum_list_filter_split:
  "sum_list (map f xs)
     = sum_list (map f (filter P xs)) + (sum_list (map f (filter (\<lambda>x. \<not> P x) xs)) :: nat)"
  by (induction xs) simp_all

lemma pool_inv_step:
  assumes "pool_inv user s"
  shows "pool_inv user (hub_step d s)"
proof (cases rule: hub_step_cases [where d = d and s = s])
  case idle
  with assms show ?thesis by simp
next
  case (returns w q t)
  with assms show ?thesis by (simp add: pool_inv_def)
next
  case (calls w q c rest)
  with assms show ?thesis by (auto simp: pool_inv_def)
next
  case (blocks w q c rest)
  with assms show ?thesis by (auto simp: pool_inv_def)
next
  case (woken w ws num)
  from assms have d: "distinct (map w_num (ready s))" "distinct (map w_num (waiting s))"
    "w_num ` set (ready s) \<inter> w_num ` set (waiting s) = {}"
    by (auto simp: pool_inv_def)
  from woken_unique [OF d(2) woken(2)] have w: "w \<in> set (waiting s)" "w_num w = num"
    by simp_all
  have "distinct (map w_num (ready s @ [w] @ filter (\<lambda>w. w_num w \<noteq> num) (waiting s)))"
    using d w by (auto simp: distinct_map_filter)
  moreover have "\<forall>x \<in> set (ready s @ [w] @ filter (\<lambda>w. w_num w \<noteq> num) (waiting s)).
      w_user x = user \<and> w_num x < nat user"
    using assms w by (auto simp: pool_inv_def)
  ultimately show ?thesis
    using woken(3) by (simp add: pool_inv_def)
qed

text \<open>
  One turn adds events to the trace; what it adds for a worker is taken from what was
  pending for that worker, and each invocation it adds is one less owed.
\<close>

lemma pend_step:
  assumes "pool_inv user s"
  shows "\<exists>evs. trace (hub_step d s) = trace s @ evs
           \<and> (\<forall>i. map as_planned (filter (\<lambda>e. ev_num e = i) evs) @ pend user i (hub_step d s)
                  = pend user i s)
           \<and> length (filter is_invoke evs) + owed (hub_step d s) = owed s"
proof (cases rule: hub_step_cases [where d = d and s = s])
  case idle
  then show ?thesis by simp
next
  case (returns w q t)
  have "pend user i (hub_step d s) = pend user i s" for i
    using returns by (simp add: pend_def pending_done)
  moreover have "owed (hub_step d s) = owed s"
    using returns by (simp add: owed_def)
  moreover have "trace (hub_step d s) = trace s @ []"
    using returns by simp
  ultimately show ?thesis by (intro exI [of _ "[]"]) simp
next
  case (calls w q c rest)
  from assms calls(2) have w: "w_user w = user" "w_num w \<notin> w_num ` set q"
    "w_num w \<notin> w_num ` set (waiting s)"
    by (auto simp: pool_inv_def)
  let ?evs = "[Invoke (w_num w) (w_user w) c (seen (w_user w) (ob s) (w_pos w)), Yield (w_num w)]"
  have "map as_planned (filter (\<lambda>e. ev_num e = i) ?evs) @ pend user i (hub_step d s)
      = pend user i s" for i
  proof (cases "i = w_num w")
    case True
    with calls w show ?thesis
      by (simp add: pend_def filter_num_absent pending_next [OF calls(3)])
  next
    case False
    with calls show ?thesis
      by (simp add: pend_def)
  qed
  moreover have "length (filter is_invoke ?evs) + owed (hub_step d s) = owed s"
    using calls by (simp add: owed_def after_todo [OF calls(3)])
  moreover have "trace (hub_step d s) = trace s @ ?evs"
    using calls by simp
  ultimately show ?thesis by blast
next
  case (blocks w q c rest)
  from assms blocks(2) have w: "w_user w = user" "w_num w \<notin> w_num ` set q"
    "w_num w \<notin> w_num ` set (waiting s)"
    by (auto simp: pool_inv_def)
  let ?evs = "[Invoke (w_num w) (w_user w) c (seen (w_user w) (ob s) (w_pos w))]"
  have "map as_planned (filter (\<lambda>e. ev_num e = i) ?evs) @ pend user i (hub_step d s)
      = pend user i s" for i
  proof (cases "i = w_num w")
    case True
    with blocks w show ?thesis
      by (simp add: pend_def filter_num_absent pending_next [OF blocks(3)])
  next
    case False
    with blocks show ?thesis
      by (simp add: pend_def)
  qed
  moreover have "length (filter is_invoke ?evs) + owed (hub_step d s) = owed s"
    using blocks by (simp add: owed_def after_todo [OF blocks(3)])
  moreover have "trace (hub_step d s) = trace s @ ?evs"
    using blocks by simp
  ultimately show ?thesis by blast
next
  case (woken w ws num)
  from assms have d: "distinct (map w_num (waiting s))"
    "w_num ` set (ready s) \<inter> w_num ` set (waiting s) = {}"
    by (auto simp: pool_inv_def)
  from woken_unique [OF d(1) woken(2)] have w: "ws = []" "w \<in> set (waiting s)" "w_num w = num"
    by simp_all
  with d(2) have absent: "num \<notin> w_num ` set (ready s)"
    by auto
  have "map as_planned (filter (\<lambda>e. ev_num e = i) [Yield num]) @ pend user i (hub_step d s)
      = pend user i s" for i
  proof (cases "i = num")
    case True
    have "filter (\<lambda>w. w_num w = num) (filter (\<lambda>w. w_num w \<noteq> num) (waiting s)) = []"
      by (simp add: filter_empty_conv)
    with True woken w absent show ?thesis
      by (simp add: pend_def filter_num_absent)
  next
    case False
    then have "filter (\<lambda>w. w_num w = i) (filter (\<lambda>w. w_num w \<noteq> num) (waiting s))
        = filter (\<lambda>w. w_num w = i) (waiting s)"
      by (auto intro: filter_cong)
    with False woken w show ?thesis
      by (simp add: pend_def)
  qed
  moreover have "owed (hub_step d s) = owed s"
  proof -
    have "sum_list (map (\<lambda>w. length (todo (w_pos w))) (waiting s))
        = sum_list (map (\<lambda>w. length (todo (w_pos w))) (filter (\<lambda>w. w_num w = num) (waiting s)))
          + sum_list (map (\<lambda>w. length (todo (w_pos w))) (filter (\<lambda>w. w_num w \<noteq> num) (waiting s)))"
      by (rule sum_list_filter_split)
    with woken w show ?thesis
      by (simp add: owed_def)
  qed
  moreover have "trace (hub_step d s) = trace s @ [Yield num]"
    using woken by simp
  ultimately show ?thesis by (intro exI [of _ "[Yield num]"]) simp
qed

lemma user_inv_step:
  assumes "pool_inv user s" and "user_inv user s"
  shows "user_inv user (hub_step d s)"
proof (cases rule: hub_step_cases [where d = d and s = s])
  case idle
  with assms show ?thesis by simp
next
  case (returns w q t)
  from assms(1) returns(1) have "w_user w = user"
    by (simp add: pool_inv_def)
  with assms(2) returns show ?thesis
    by (auto simp: user_inv_def)
next
  case (calls w q c rest)
  from assms(1) calls(2) have u: "w_user w = user"
    by (simp add: pool_inv_def)
  have seen: "ob_current_user (seen user (ob s) (w_pos w)) = Some user"
    using seen_user [OF calls(3), of user "ob s"] assms(2) calls(2)
    by (auto simp: user_inv_def)
  with assms(2) calls u show ?thesis
    by (simp add: user_inv_def)
next
  case (blocks w q c rest)
  from assms(1) blocks(2) have u: "w_user w = user"
    by (simp add: pool_inv_def)
  have seen: "ob_current_user (seen user (ob s) (w_pos w)) = Some user"
    using seen_user [OF blocks(3), of user "ob s"] assms(2) blocks(2)
    by (auto simp: user_inv_def)
  from after_Inner [OF blocks(3)] obtain k cs where "after (w_pos w) = Inner c k cs"
    by auto
  with seen assms(2) blocks u show ?thesis
    by (simp add: user_inv_def)
next
  case (woken w ws num)
  from woken(2) have "w \<in> set (filter (\<lambda>w. w_num w = num) (waiting s))"
    by simp
  then have w: "w \<in> set (waiting s)"
    by simp
  with assms(2) obtain c k cs where inner: "w_pos w = Inner c k cs"
    by (auto simp: user_inv_def)
  have "ob_current_user (ob s) = Some user"
  proof (rule ccontr)
    assume "ob_current_user (ob s) \<noteq> Some user"
    with assms(2) have "\<forall>w \<in> set (ready s @ waiting s). \<exists>cs. w_pos w = Outer cs"
      by (simp add: user_inv_def)
    with w obtain cs' where "w_pos w = Outer cs'"
      by auto
    with inner show False by simp
  qed
  with assms(2) woken(3) show ?thesis
    by (auto simp: user_inv_def)
qed

lemma tier_inv_step:
  assumes "tier_inv cycles user t0 s"
  shows "tier_inv cycles user t0 (hub_step d s)"
proof -
  from assms have pool: "pool_inv user s" and usr: "user_inv user s"
    by (simp_all add: tier_inv_def)
  from assms obtain seg where seg: "trace s = t0 @ seg"
    "\<And>i. map as_planned (filter (\<lambda>e. ev_num e = i) seg) @ pend user i s
               = (if i < nat user then worker_script cycles user i else [])"
    "length (filter is_invoke seg) + owed s = nat user * length (rounds cycles)"
    by (auto simp: tier_inv_def)
  from pend_step [OF pool, of d] obtain evs where evs: "trace (hub_step d s) = trace s @ evs"
    "\<And>i. map as_planned (filter (\<lambda>e. ev_num e = i) evs) @ pend user i (hub_step d s)
                  = pend user i s"
    "length (filter is_invoke evs) + owed (hub_step d s) = owed s"
    by auto
  have "trace (hub_step d s) = t0 @ (seg @ evs)"
    using seg(1) evs(1) by simp
  moreover have "map as_planned (filter (\<lambda>e. ev_num e = i) (seg @ evs)) @ pend user i (hub_step d s)
      = (if i < nat user then worker_script cycles user i else [])" for i
    using seg(2) [of i] evs(2) [of i] by simp
  moreover have "length (filter is_invoke (seg @ evs)) + owed (hub_step d s)
      = nat user * length (rounds cycles)"
    using seg(3) evs(3) by simp
  ultimately show ?thesis
    unfolding tier_inv_def
    using pool_inv_step [OF pool, of d] user_inv_step [OF pool usr, of d] by blast
qed

lemma group_join_inv:
  assumes "\<And>d s. I s \<Longrightarrow> I (hub_step d s)" and "I s"
  shows "I (fst (group_join ds s))"
  using assms(2) by (induction ds arbitrary: s) (simp_all add: assms(1))

lemma group_join_rest: "\<exists>used. ds = used @ snd (group_join ds s)"
proof (induction ds arbitrary: s)
  case Nil
  show ?case by simp
next
  case (Cons d ds)
  show ?case
  proof (cases "joined s")
    case True
    then show ?thesis by simp
  next
    case False
    from Cons [of "hub_step d s"] obtain used where "ds = used @ snd (group_join ds (hub_step d s))"
      by auto
    then have "d # ds = (d # used) @ snd (group_join ds (hub_step d s))"
      by simp
    moreover from False have "snd (group_join (d # ds) s) = snd (group_join ds (hub_step d s))"
      by simp
    ultimately have "d # ds = (d # used) @ snd (group_join (d # ds) s)"
      by (simp only:)
    then show ?thesis ..
  qed
qed

lemma spawned_worker:
  "filter (\<lambda>w. w_num w = i) (map (\<lambda>i. \<lparr>w_num = i, w_user = user, w_pos = p\<rparr>) [0..<n])
     = (if i < n then [\<lparr>w_num = i, w_user = user, w_pos = p\<rparr>] else [])"
  by (induction n) simp_all

lemma tier_inv_spawn:
  assumes "\<forall>e \<in> set (trace s). sees_user e"
  shows "tier_inv cycles user (trace s) (s\<lparr>ready := spawn_all user cycles, waiting := []\<rparr>)"
proof -
  let ?s = "s\<lparr>ready := spawn_all user cycles, waiting := []\<rparr>"
  have "map w_num (spawn_all user cycles) = [0..<nat user]"
    by (simp add: spawn_all_def o_def)
  then have "pool_inv user ?s"
    by (simp add: pool_inv_def) (simp add: spawn_all_def)
  moreover have "user_inv user ?s"
    using assms by (simp add: user_inv_def spawn_all_def)
  moreover have "pend user i ?s = (if i < nat user then worker_script cycles user i else [])" for i
    by (simp add: pend_def spawn_all_def spawned_worker pending_Outer)
  moreover have "owed ?s = nat user * length (rounds cycles)"
    by (simp add: owed_def spawn_all_def o_def sum_list_triv)
  ultimately show ?thesis
    by (simp add: tier_inv_def)
qed

lemma group_join_tier:
  assumes "tier_inv cycles user t0 s"
  shows "tier_inv cycles user t0 (fst (group_join ds s))"
  using tier_inv_step assms by (rule group_join_inv)

text \<open>What the invariant says of the part of the trace that a tier has added.\<close>

lemma tier_inv_segment:
  assumes "tier_inv cycles user t0 s"
  shows "\<exists>seg. trace s = t0 @ seg \<and> tier_segment cycles user (joined s) seg
           \<and> (\<forall>e \<in> set (trace s). sees_user e)
           \<and> (joined s \<longrightarrow> length (filter is_invoke seg) = nat user * length (rounds cycles))"
proof -
  from assms obtain seg where seg: "trace s = t0 @ seg"
    "\<And>i. map as_planned (filter (\<lambda>e. ev_num e = i) seg) @ pend user i s
               = (if i < nat user then worker_script cycles user i else [])"
    "length (filter is_invoke seg) + owed s = nat user * length (rounds cycles)"
    by (auto simp: tier_inv_def)
  have nums: "ev_num e < nat user" if "e \<in> set seg" for e
  proof (rule ccontr)
    assume "\<not> ev_num e < nat user"
    with seg(2) [of "ev_num e"] have "filter (\<lambda>x. ev_num x = ev_num e) seg = []"
      by simp
    with that show False
      by (auto simp: filter_empty_conv)
  qed
  have whole: "map as_planned (filter (\<lambda>e. ev_num e = i) seg) = worker_script cycles user i"
    if "joined s" and "i < nat user" for i
    using seg(2) [of i] that by (simp add: joined_def pend_def)
  have part: "prefix (map as_planned (filter (\<lambda>e. ev_num e = i) seg)) (worker_script cycles user i)"
    if "i < nat user" for i
    using seg(2) [of i] that by (metis prefixI)
  have "tier_segment cycles user (joined s) seg"
    using nums whole part by (simp add: tier_segment_def)
  moreover have "\<forall>e \<in> set (trace s). sees_user e"
    using assms by (simp add: tier_inv_def user_inv_def)
  moreover have "length (filter is_invoke seg) = nat user * length (rounds cycles)" if "joined s"
    using seg(3) that by (simp add: joined_def owed_def)
  ultimately show ?thesis
    using seg(1) by blast
qed

lemma run_tiers_segments:
  assumes "\<forall>e \<in> set (trace s). sees_user e"
  shows "\<exists>segs. trace (fst (run_tiers cycles users ds s)) = trace s @ concat segs
           \<and> segments_ok cycles (snd (run_tiers cycles users ds s)) users segs
           \<and> (\<forall>e \<in> set (trace (fst (run_tiers cycles users ds s))). sees_user e)
           \<and> (snd (run_tiers cycles users ds s) \<longrightarrow>
                length (filter is_invoke (concat segs))
                  = (\<Sum>u\<leftarrow>users. nat u * length (rounds cycles)))"
  using assms
proof (induction users arbitrary: ds s)
  case Nil
  then show ?case by simp
next
  case (Cons user users)
  let ?s0 = "s\<lparr>ready := spawn_all user cycles, waiting := []\<rparr>"
  obtain s' ds' where gj: "group_join ds ?s0 = (s', ds')"
    by (cases "group_join ds ?s0")
  from group_join_tier [OF tier_inv_spawn [OF Cons.prems], of cycles user ds] gj
  have "tier_inv cycles user (trace s) s'"
    by simp
  from tier_inv_segment [OF this] obtain seg where seg: "trace s' = trace s @ seg"
    "tier_segment cycles user (joined s') seg" "\<forall>e \<in> set (trace s'). sees_user e"
    "joined s' \<longrightarrow> length (filter is_invoke seg) = nat user * length (rounds cycles)"
    by auto
  show ?case
  proof (cases "joined s'")
    case False
    with gj have "run_tiers cycles (user # users) ds s = (s', False)"
      by simp
    moreover from False seg(2) have "segments_ok cycles False (user # users) [seg]"
      by simp
    ultimately show ?thesis
      using seg(1,3) by (intro exI [of _ "[seg]"]) simp
  next
    case True
    with gj have run: "run_tiers cycles (user # users) ds s = run_tiers cycles users ds' s'"
      by simp
    from Cons.IH [OF seg(3), of ds'] obtain segs where segs:
      "trace (fst (run_tiers cycles users ds' s')) = trace s' @ concat segs"
      "segments_ok cycles (snd (run_tiers cycles users ds' s')) users segs"
      "\<forall>e \<in> set (trace (fst (run_tiers cycles users ds' s'))). sees_user e"
      "snd (run_tiers cycles users ds' s') \<longrightarrow>
         length (filter is_invoke (concat segs)) = (\<Sum>u\<leftarrow>users. nat u * length (rounds cycles))"
      by auto
    have "segs = [] \<Longrightarrow> snd (run_tiers cycles users ds' s')"
      using segs(2) by (cases users) simp_all
    with True seg(2) segs(2)
    have "segments_ok cycles (snd (run_tiers cycles users ds' s')) (user # users) (seg # segs)"
      by auto
    with run seg(1,4) segs(1,3,4) True show ?thesis
      by (intro exI [of _ "seg # segs"]) simp
  qed
qed

section \<open>Properties of a local run in which no call of the scenario blocks\<close>

lemma fits_own: "todo p = c # rest \<Longrightarrow> fits user (context_of user c) p"
  by (cases "(user, context_of user c, p)" rule: seen.cases) (auto simp: fits_def)

lemma fits_after: "todo p = c # rest \<Longrightarrow> fits user (context_of user c) (after p)"
proof -
  assume p: "todo p = c # rest"
  then obtain k cs where a: "after p = Inner c k cs"
    using after_Inner by blast
  show ?thesis
    by (cases k) (simp_all add: a fits_def)
qed

text \<open>
  A turn keeps the workers in step. In the proof the queue is first taken to begin with
  a worker at \<open>p\<close>: when all its workers are at \<open>after p\<close>, that position is the new
  \<open>p\<close>.
\<close>

lemma lockstep_step:
  assumes "lockstep user s"
  shows "lockstep user (hub_step (Runs False) s)"
proof -
  from assms have wait: "waiting s = []" and cyc: "\<forall>e \<in> set (trace s). sees_cycle e"
    by (simp_all add: lockstep_def)
  from assms obtain p0 m1 m2 where q0:
    "ready s = map (\<lambda>i. \<lparr>w_num = i, w_user = user, w_pos = p0\<rparr>) m1
                   @ map (\<lambda>i. \<lparr>w_num = i, w_user = user, w_pos = after p0\<rparr>) m2"
    "if m2 = [] then fits user (ob s) p0
     else todo p0 \<noteq> [] \<and> ob s = context_of user (hd (todo p0))"
    by (auto simp: lockstep_def)
  show ?thesis
  proof (cases "ready s")
    case Nil
    then have "hub_step (Runs False) s = s" by simp
    with assms show ?thesis by simp
  next
    case (Cons w q)
    have "\<exists>p i n1 n2.
        ready s = map (\<lambda>i. \<lparr>w_num = i, w_user = user, w_pos = p\<rparr>) (i # n1)
                   @ map (\<lambda>i. \<lparr>w_num = i, w_user = user, w_pos = after p\<rparr>) n2
        \<and> fits user (ob s) p
        \<and> (n2 \<noteq> [] \<longrightarrow> todo p \<noteq> [] \<and> ob s = context_of user (hd (todo p)))"
    proof (cases m1)
      case m1: Nil
      with Cons q0(1) obtain i n1 where m2: "m2 = i # n1"
        by (cases m2) auto
      with q0(2) obtain c rest where c: "todo p0 = c # rest" "ob s = context_of user c"
        by (cases "todo p0") auto
      have "ready s = map (\<lambda>i. \<lparr>w_num = i, w_user = user, w_pos = after p0\<rparr>) (i # n1)
          @ map (\<lambda>i. \<lparr>w_num = i, w_user = user, w_pos = after (after p0)\<rparr>) []"
        using q0(1) m1 m2 by simp
      moreover have "fits user (ob s) (after p0)"
        using fits_after [OF c(1)] c(2) by simp
      ultimately show ?thesis by blast
    next
      case m1: (Cons i n1)
      have "fits user (ob s) p0"
      proof (cases "m2 = []")
        case True
        with q0(2) show ?thesis by simp
      next
        case False
        with q0(2) obtain c rest where "todo p0 = c # rest" "ob s = context_of user c"
          by (cases "todo p0") auto
        then show ?thesis using fits_own by simp
      qed
      with q0 m1 show ?thesis by (intro exI [of _ p0] exI [of _ i] exI [of _ n1] exI [of _ m2]) auto
    qed
    then obtain p i n1 n2 where q:
      "ready s = map (\<lambda>i. \<lparr>w_num = i, w_user = user, w_pos = p\<rparr>) (i # n1)
                   @ map (\<lambda>i. \<lparr>w_num = i, w_user = user, w_pos = after p\<rparr>) n2"
      "fits user (ob s) p"
      "n2 \<noteq> [] \<longrightarrow> todo p \<noteq> [] \<and> ob s = context_of user (hd (todo p))"
      by blast
    let ?q = "map (\<lambda>i. \<lparr>w_num = i, w_user = user, w_pos = p\<rparr>) n1
                   @ map (\<lambda>i. \<lparr>w_num = i, w_user = user, w_pos = after p\<rparr>) n2"
    show ?thesis
    proof (cases "todo p")
      case Nil
      from resume_done [OF Nil, of i user "s\<lparr>ready := ?q\<rparr>"]
      obtain t where "resume i user p (s\<lparr>ready := ?q\<rparr>) = (s\<lparr>ready := ?q, ob := t\<rparr>, None)"
        by auto
      with q(1) have step: "hub_step (Runs False) s = s\<lparr>ready := ?q, ob := t\<rparr>"
        by simp
      from Nil q(3) have "n2 = []" by auto
      moreover from Nil have "fits user t p" by (simp add: fits_def)
      ultimately have "\<exists>p' m1 m2.
          ready (s\<lparr>ready := ?q, ob := t\<rparr>)
            = map (\<lambda>i. \<lparr>w_num = i, w_user = user, w_pos = p'\<rparr>) m1
              @ map (\<lambda>i. \<lparr>w_num = i, w_user = user, w_pos = after p'\<rparr>) m2
          \<and> (if m2 = [] then fits user (ob (s\<lparr>ready := ?q, ob := t\<rparr>)) p'
              else todo p' \<noteq> [] \<and> ob (s\<lparr>ready := ?q, ob := t\<rparr>) = context_of user (hd (todo p')))"
        by (intro exI [of _ p] exI [of _ n1] exI [of _ "[]"]) simp
      with wait cyc show ?thesis
        unfolding lockstep_def step by simp
    next
      case (Cons c rest)
      from q(2) Cons have seen: "seen user (ob s) p = context_of user c"
        by (simp add: fits_def)
      from resume_next [OF Cons, of i user "s\<lparr>ready := ?q\<rparr>"] q(1) seen
      have step: "hub_step (Runs False) s =
          s\<lparr>ob := context_of user c,
            trace := trace s @ [Invoke i user c (context_of user c), Yield i],
            ready := map (\<lambda>i. \<lparr>w_num = i, w_user = user, w_pos = p\<rparr>) n1
                   @ map (\<lambda>i. \<lparr>w_num = i, w_user = user, w_pos = after p\<rparr>) (n2 @ [i])\<rparr>"
        by simp
      let ?s' = "s\<lparr>ob := context_of user c,
            trace := trace s @ [Invoke i user c (context_of user c), Yield i],
            ready := map (\<lambda>i. \<lparr>w_num = i, w_user = user, w_pos = p\<rparr>) n1
                   @ map (\<lambda>i. \<lparr>w_num = i, w_user = user, w_pos = after p\<rparr>) (n2 @ [i])\<rparr>"
      have "\<exists>p' m1 m2.
          ready ?s' = map (\<lambda>i. \<lparr>w_num = i, w_user = user, w_pos = p'\<rparr>) m1
              @ map (\<lambda>i. \<lparr>w_num = i, w_user = user, w_pos = after p'\<rparr>) m2
          \<and> (if m2 = [] then fits user (ob ?s') p'
              else todo p' \<noteq> [] \<and> ob ?s' = context_of user (hd (todo p')))"
        using Cons by (intro exI [of _ p] exI [of _ n1] exI [of _ "n2 @ [i]"]) simp
      moreover have "\<forall>e \<in> set (trace ?s'). sees_cycle e"
        using cyc by (simp add: context_of_def)
      ultimately show ?thesis
        unfolding lockstep_def step using wait by simp
    qed
  qed
qed

lemma lockstep_spawn:
  assumes "\<forall>e \<in> set (trace s). sees_cycle e"
  shows "lockstep user (s\<lparr>ready := spawn_all user cycles, waiting := []\<rparr>)"
proof -
  let ?s = "s\<lparr>ready := spawn_all user cycles, waiting := []\<rparr>"
  have "\<exists>p m1 m2.
      ready ?s = map (\<lambda>i. \<lparr>w_num = i, w_user = user, w_pos = p\<rparr>) m1
          @ map (\<lambda>i. \<lparr>w_num = i, w_user = user, w_pos = after p\<rparr>) m2
      \<and> (if m2 = [] then fits user (ob ?s) p
          else todo p \<noteq> [] \<and> ob ?s = context_of user (hd (todo p)))"
    by (intro exI [of _ "Outer cycles"] exI [of _ "[0..<nat user]"] exI [of _ "[]"])
      (simp add: spawn_all_def fits_def)
  with assms show ?thesis
    unfolding lockstep_def by simp
qed

lemma group_join_lockstep:
  assumes "\<forall>d \<in> set ds. d = Runs False" and "lockstep user s"
  shows "lockstep user (fst (group_join ds s))"
  using assms by (induction ds arbitrary: s) (simp_all add: lockstep_step del: hub_step.simps)

lemma run_tiers_sees_cycle:
  assumes "\<forall>d \<in> set ds. d = Runs False" and "\<forall>e \<in> set (trace s). sees_cycle e"
  shows "\<forall>e \<in> set (trace (fst (run_tiers cycles users ds s))). sees_cycle e"
  using assms
proof (induction users arbitrary: ds s)
  case Nil
  then show ?case by simp
next
  case (Cons user users)
  let ?s0 = "s\<lparr>ready := spawn_all user cycles, waiting := []\<rparr>"
  obtain s' ds' where gj: "group_join ds ?s0 = (s', ds')"
    by (cases "group_join ds ?s0")
  from group_join_lockstep [OF Cons.prems(1) lockstep_spawn [OF Cons.prems(2)], of user cycles] gj
  have s': "\<forall>e \<in> set (trace s'). sees_cycle e"
    by (simp add: lockstep_def)
  from group_join_rest [of ds ?s0] gj have "set ds' \<subseteq> set ds"
    by auto
  with Cons.prems(1) have "\<forall>d \<in> set ds'. d = Runs False"
    by auto
  from Cons.IH [OF this s'] gj s' show ?case
    by simp
qed

text \<open>
  When no call blocks, every turn of the hub with a worker in the queue either lets a
  worker return or makes one of the invocations owed, so the join returns within as
  many turns as there are workers and invocations owed.
\<close>

lemma runs_progress:
  assumes "waiting s = []" and "ready s \<noteq> []"
  shows "waiting (hub_step (Runs False) s) = []
    \<and> Suc (length (ready (hub_step (Runs False) s)) + owed (hub_step (Runs False) s))
        = length (ready s) + owed s"
proof (cases rule: hub_step_cases [where d = "Runs False" and s = s])
  case idle
  with assms(2) show ?thesis by simp
next
  case (returns w q t)
  with assms show ?thesis by (simp add: owed_def)
next
  case (calls w q c rest)
  with assms show ?thesis by (simp add: owed_def after_todo [OF calls(3)])
next
  case (blocks w q c rest)
  then show ?thesis by simp
next
  case (woken w ws num)
  then show ?thesis by simp
qed

lemma group_join_returns:
  assumes "\<forall>d \<in> set ds. d = Runs False" and "waiting s = []"
    and "length (ready s) + owed s \<le> length ds"
  shows "joined (fst (group_join ds s))
    \<and> length ds \<le> length (snd (group_join ds s)) + (length (ready s) + owed s)"
  using assms
proof (induction ds arbitrary: s)
  case Nil
  then show ?case by (simp add: joined_def)
next
  case (Cons d ds)
  show ?case
  proof (cases "joined s")
    case True
    then show ?thesis by simp
  next
    case False
    with Cons.prems(2) have ready: "ready s \<noteq> []"
      by (simp add: joined_def)
    from Cons.prems(1) have d: "d = Runs False" and ds: "\<forall>d \<in> set ds. d = Runs False"
      by simp_all
    note step = runs_progress [OF Cons.prems(2) ready]
    with Cons.prems(3) have "length (ready (hub_step d s)) + owed (hub_step d s) \<le> length ds"
      unfolding d by simp
    from Cons.IH [OF ds _ this] step d
    have "joined (fst (group_join ds (hub_step d s)))
      \<and> length ds \<le> length (snd (group_join ds (hub_step d s)))
          + (length (ready (hub_step d s)) + owed (hub_step d s))"
      by simp
    with False step d show ?thesis
      by (simp del: hub_step.simps)
  qed
qed

lemma length_rounds: "length (rounds cycles) = sum_list (map nat cycles)"
  by (induction cycles) (simp_all add: rounds_Cons rounds_Nil)

lemma run_tiers_returns:
  assumes "\<forall>d \<in> set ds. d = Runs False"
    and "(\<Sum>u\<leftarrow>users. nat u * Suc (sum_list (map nat cycles))) \<le> length ds"
  shows "snd (run_tiers cycles users ds s)"
  using assms
proof (induction users arbitrary: ds s)
  case Nil
  show ?case by simp
next
  case (Cons user users)
  let ?s0 = "s\<lparr>ready := spawn_all user cycles, waiting := []\<rparr>"
  obtain s' ds' where gj: "group_join ds ?s0 = (s', ds')"
    by (cases "group_join ds ?s0")
  have size: "length (ready ?s0) + owed ?s0 = nat user * Suc (sum_list (map nat cycles))"
    by (simp add: owed_def spawn_all_def o_def sum_list_triv length_rounds)
  with Cons.prems(2) have "length (ready ?s0) + owed ?s0 \<le> length ds"
    by simp
  from group_join_returns [OF Cons.prems(1) _ this] gj size
  have s': "joined s'" and left: "length ds \<le> length ds' + nat user * Suc (sum_list (map nat cycles))"
    by simp_all
  from group_join_rest [of ds ?s0] gj have "set ds' \<subseteq> set ds"
    by auto
  with Cons.prems(1) have ds': "\<forall>d \<in> set ds'. d = Runs False"
    by auto
  from left Cons.prems(2)
  have "(\<Sum>u\<leftarrow>users. nat u * Suc (sum_list (map nat cycles))) \<le> length ds'"
    by simp
  from Cons.IH [OF ds' this, of s'] gj s' show ?case
    by simp
qed

section \<open>The schedule of a local run\<close>

lemma run_schedule:
  assumes "compute a = Inr (n, cycles, users, ag)"
  shows "\<exists>s returned segs.
           run ds a = Inr (s, returned)
         \<and> trace s = concat segs \<and> segments_ok cycles returned users segs
         \<and> (\<forall>e \<in> set (trace s). sees_user e)
         \<and> (returned \<longrightarrow> length (filter is_invoke (trace s))
               = (\<Sum>u\<leftarrow>users. nat u * sum_list (map nat cycles)))
         \<and> ((\<forall>d \<in> set ds. d = Runs False) \<longrightarrow>
              (\<forall>e \<in> set (trace s). sees_cycle e)
              \<and> ((\<Sum>u\<leftarrow>users. nat u * Suc (sum_list (map nat cycles))) \<le> length ds
                   \<longrightarrow> returned))"
proof -
  let ?s0 = "\<lparr>ob = \<lparr>ob_current_cycle = None, ob_current_user = None\<rparr>, trace = [],
    ready = [], waiting = []\<rparr>"
  let ?r = "run_tiers cycles users ds ?s0"
  have run: "run ds a = Inr (fst ?r, snd ?r)"
    using assms by (simp add: run_def)
  from run_tiers_segments [of ?s0 cycles users ds] obtain segs where segs:
    "trace (fst ?r) = concat segs" "segments_ok cycles (snd ?r) users segs"
    "\<forall>e \<in> set (trace (fst ?r)). sees_user e"
    "snd ?r \<longrightarrow> length (filter is_invoke (concat segs)) = (\<Sum>u\<leftarrow>users. nat u * length (rounds cycles))"
    by auto
  have cyc: "\<forall>e \<in> set (trace (fst ?r)). sees_cycle e" if "\<forall>d \<in> set ds. d = Runs False"
    using run_tiers_sees_cycle [OF that, of ?s0 cycles users] by simp
  have ret: "snd ?r" if "\<forall>d \<in> set ds. d = Runs False"
    and "(\<Sum>u\<leftarrow>users. nat u * Suc (sum_list (map nat cycles))) \<le> length ds"
    using that by (rule run_tiers_returns)
  have count: "length (filter is_invoke (trace (fst ?r)))
      = (\<Sum>u\<leftarrow>users. nat u * sum_list (map nat cycles))" if "snd ?r"
    using segs(1,4) that by (simp add: length_rounds)
  show ?thesis
    apply (rule exI [of _ "fst ?r"])
    apply (rule exI [of _ "snd ?r"])
    apply (rule exI [of _ segs])
    using run segs(1,2,3) cyc ret count apply blast
    done
qed

text \<open>
  C6, as stated, fails. With two workers and the cycle sizes 2 and 1, let the first call
  of worker 1 block until worker 0 has made both its calls for the cycle size 2 and
  its call for the cycle size 1. The second call that worker 1 makes for the cycle size
  2 then starts with \<open>current_cycle = 1\<close>: the workers share one test object, and worker
  1 wrote its attributes before its first call only.
\<close>

theorem local_run_stale_cycle_counterexample:
  "run late_wake \<lparr>arg_users = ''2'', arg_cycles = ''2:1'', arg_agents = None\<rparr>
     = Inr (\<lparr>ob = \<lparr>ob_current_cycle = Some 1, ob_current_user = Some 2\<rparr>,
             trace =
               [Invoke 0 2 2 \<lparr>ob_current_cycle = Some 2, ob_current_user = Some 2\<rparr>, Yield 0,
                Invoke 1 2 2 \<lparr>ob_current_cycle = Some 2, ob_current_user = Some 2\<rparr>,
                Invoke 0 2 2 \<lparr>ob_current_cycle = Some 2, ob_current_user = Some 2\<rparr>, Yield 0,
                Invoke 0 2 1 \<lparr>ob_current_cycle = Some 1, ob_current_user = Some 2\<rparr>, Yield 0,
                Yield 1,
                Invoke 1 2 2 \<lparr>ob_current_cycle = Some 1, ob_current_user = Some 2\<rparr>, Yield 1,
                Invoke 1 2 1 \<lparr>ob_current_cycle = Some 1, ob_current_user = Some 2\<rparr>, Yield 1],
             ready = [], waiting = []\<rparr>, True)
   \<and> \<not> sees_cycle (Invoke 1 2 2 \<lparr>ob_current_cycle = Some 1, ob_current_user = Some 2\<rparr>)"
  by code_simp

text \<open>
  C6, amended. In a local run, whatever calls of the scenario block and for how long,
  the user tiers are processed one after the other with a join barrier (the trace is
  made of one part for each tier that has begun, in the order of the tiers, and a tier
  has begun only when every worker of the tier before it has made all of its script);
  each worker invokes the scenario \<open>c\<close> times for each cycle size \<open>c\<close> in order and
  yields after every single invocation (its events are, but for the attributes seen, its
  script, or a beginning of it while its tier is running); and every invocation starts
  with \<open>current_user\<close> equal to its tier. Every invocation starts with \<open>current_cycle\<close>
  equal to its cycle size as well when no call of the scenario blocks; and then \<open>run\<close>
  returns, once the hub has taken, for every tier, one turn for each invocation of each
  of its workers and one more for each worker.
\<close>

theorem local_run_schedule:
  assumes "compute a = Inr (n, cycles, users, ag)"
  shows "\<exists>s returned segs.
           run ds a = Inr (s, returned)
         \<and> trace s = concat segs \<and> segments_ok cycles returned users segs
         \<and> (\<forall>e \<in> set (trace s). sees_user e)
         \<and> ((\<forall>d \<in> set ds. d = Runs False) \<longrightarrow>
              (\<forall>e \<in> set (trace s). sees_cycle e)
              \<and> ((\<Sum>u\<leftarrow>users. nat u * Suc (sum_list (map nat cycles))) \<le> length ds
                   \<longrightarrow> returned))"
  using run_schedule [OF assms, of ds] by blast

theorem local_run_schedule_witness:
  "(\<exists>s segs. run late_wake \<lparr>arg_users = ''2'', arg_cycles = ''2:1'', arg_agents = None\<rparr>
        = Inr (s, True)
      \<and> trace s = concat segs \<and> segments_ok [2, 1] True [2] segs
      \<and> (\<forall>e \<in> set (trace s). sees_user e))
   \<and> (\<exists>s. run (replicate 8 (Runs False))
          \<lparr>arg_users = ''2'', arg_cycles = ''2:1'', arg_agents = None\<rparr> = Inr (s, True)
      \<and> (\<forall>e \<in> set (trace s). sees_cycle e))"
proof -
  let ?a = "\<lparr>arg_users = ''2'', arg_cycles = ''2:1'', arg_agents = None\<rparr>"
  have plan: "compute ?a = Inr (6, [2, 1], [2], None)"
    by (simp add: compute_def literal_simps)
  have "snd (projr (run late_wake ?a))"
    by code_simp
  with local_run_schedule [OF plan, of late_wake]
  have "\<exists>s segs. run late_wake ?a = Inr (s, True)
      \<and> trace s = concat segs \<and> segments_ok [2, 1] True [2] segs
      \<and> (\<forall>e \<in> set (trace s). sees_user e)"
    by auto
  moreover from local_run_schedule [OF plan, of "replicate 8 (Runs False)"]
  have "\<exists>s. run (replicate 8 (Runs False)) ?a = Inr (s, True)
      \<and> (\<forall>e \<in> set (trace s). sees_cycle e)"
    by auto
  ultimately show ?thesis ..
qed

section \<open>Properties of the reported outcomes\<close>

lemma with_test_outcomes:
  assumes "\<And>t. outcomes_of (f t) = outcomes_of t + n"
  shows "sum_list (map (\<lambda>(k, t). outcomes_of t) (with_test now key f kts))
       = sum_list (map (\<lambda>(k, t). outcomes_of t) kts) + n"
proof (induction kts)
  case Nil
  show ?case using assms [of "Test_init now"] by (simp add: outcomes_of_def Test_init_def)
next
  case (Cons kt kts)
  obtain k t where "kt = (k, t)" by (cases kt)
  with Cons assms [of t] show ?case by simp
qed

lemma bucket_outcomes:
  assumes "\<And>t. outcomes_of (f t) = outcomes_of t + n"
  shows "outcomes_recorded (r\<lparr>tests := with_test now key f (tests r)\<rparr>) = outcomes_recorded r + n"
  using with_test_outcomes [of f n now key "tests r", OF assms]
  by (simp add: outcomes_recorded_def)

lemma startTest_outcomes:
  "outcomes_recorded (startTest test st wid now r) = outcomes_recorded r"
proof (cases st)
  case (fields cycle user current_cycle current_user)
  have "outcomes_recorded (r\<lparr>tests := with_test now (test, current_user, current_cycle, wid)
          (\<lambda>t. t\<lparr>t_name := Some test, t_current_cycle := current_cycle, t_user := user\<rparr>)
          (tests r)\<rparr>) = outcomes_recorded r + 0"
    by (rule bucket_outcomes) (simp add: outcomes_of_def)
  with fields show ?thesis by simp
qed

lemma stopTest_outcomes:
  "outcomes_recorded (stopTest test st wid now r) = outcomes_recorded r"
proof -
  have "outcomes_recorded (stopTest test st wid now r) = outcomes_recorded r + 0"
    unfolding stopTest_def by (rule bucket_outcomes) (simp add: outcomes_of_def)
  then show ?thesis by simp
qed

lemma addSuccess_outcomes:
  "outcomes_recorded (addSuccess test st wid now r) = outcomes_recorded r + 1"
  unfolding addSuccess_def by (rule bucket_outcomes) (simp add: outcomes_of_def)

lemma addFailure_outcomes:
  "outcomes_recorded (addFailure test e st wid now r) = outcomes_recorded r + 1"
  unfolding addFailure_def by (rule bucket_outcomes) (simp add: outcomes_of_def)

lemma addError_outcomes:
  "outcomes_recorded (addError test e st wid now r) = outcomes_recorded r + 1"
  unfolding addError_def by (rule bucket_outcomes) (simp add: outcomes_of_def)

lemma nb_sum_outcomes:
  "nb_success r + nb_failures r + nb_errors r = outcomes_recorded r"
proof -
  have "get_tests None None None r = map snd (tests r)"
    by (simp add: get_tests_def)
  moreover have "sum_list (map t_success (map snd kts))
      + sum_list (map (\<lambda>t. int (length (t_failures t))) (map snd kts))
      + sum_list (map (\<lambda>t. int (length (t_errors t))) (map snd kts))
      = sum_list (map (\<lambda>(k, t). outcomes_of t) kts)" for kts :: "(test_key \<times> Test) list"
    by (induction kts) (auto simp: outcomes_of_def)
  ultimately show ?thesis
    unfolding nb_success_def nb_failures_def nb_errors_def outcomes_recorded_def by simp
qed

text \<open>
  Calls of \<open>startTest\<close>, \<open>stopTest\<close> and the three \<open>add\<close> methods, in any order, are all
  accepted, and the outcomes recorded grow by the number of \<open>add\<close> calls among them.
\<close>

lemma call_method_report:
  assumes "is_report c"
  shows "\<exists>w'. call_method c now w = Inr w'
           \<and> outcomes_recorded (sink w') = outcomes_recorded (sink w) + (if is_outcome c then 1 else 0)"
  using assms
  by (cases c)
    (simp_all add: call_method_def startTest_outcomes stopTest_outcomes addSuccess_outcomes
      addFailure_outcomes addError_outcomes del: startTest.simps)

lemma replay_reports:
  assumes "\<forall>c \<in> set (map fst timed). is_report c"
  shows "\<exists>w'. replay timed w = Inr w'
           \<and> outcomes_recorded (sink w')
             = outcomes_recorded (sink w) + int (length (filter is_outcome (map fst timed)))"
  using assms
proof (induction timed arbitrary: w)
  case Nil
  show ?case by simp
next
  case (Cons a timed)
  obtain c now where a: "a = (c, now)" by (cases a)
  with Cons.prems have c: "is_report c" and rest: "\<forall>c \<in> set (map fst timed). is_report c"
    by simp_all
  from call_method_report [OF c, of now w] obtain w1 where w1: "call_method c now w = Inr w1"
    "outcomes_recorded (sink w1) = outcomes_recorded (sink w) + (if is_outcome c then 1 else 0)"
    by auto
  from Cons.IH [OF rest, of w1] obtain w' where "replay timed w1 = Inr w'"
    "outcomes_recorded (sink w')
       = outcomes_recorded (sink w1) + int (length (filter is_outcome (map fst timed)))"
    by auto
  with w1 a show ?case by simp
qed

lemma reported_calls_reports:
  "\<forall>c \<in> set (reported_calls reps evs). is_report c"
  by (induction reps evs rule: reported_calls.induct)
    (auto simp: invocation_calls_def Let_def split: outcome.splits)

lemma reported_calls_outcomes:
  assumes "length reps = length (filter is_invoke evs)"
  shows "length (filter is_outcome (reported_calls reps evs)) = length reps"
  using assms
  by (induction reps evs rule: reported_calls.induct)
    (auto simp: invocation_calls_def Let_def split: outcome.splits)

lemma same_calls:
  assumes "mset xs = mset ys"
  shows "set xs = set ys" and "length (filter P xs) = length (filter P ys)"
proof -
  from assms show "set xs = set ys"
    by (rule mset_eq_setD)
  from assms have "mset (filter P xs) = mset (filter P ys)"
    by (simp only: mset_filter)
  then show "length (filter P xs) = length (filter P ys)"
    by (rule mset_eq_length)
qed

lemma replay_reported:
  assumes "mset (map fst timed) = mset (reported_calls reps evs)"
    and "length reps = length (filter is_invoke evs)"
  shows "\<exists>w'. replay timed w = Inr w'
           \<and> outcomes_recorded (sink w') = outcomes_recorded (sink w) + int (length reps)"
proof -
  from same_calls(1) [OF assms(1)] reported_calls_reports [of reps evs]
  have "\<forall>c \<in> set (map fst timed). is_report c"
    by simp
  from replay_reports [OF this, of w] same_calls(2) [OF assms(1), of is_outcome]
    reported_calls_outcomes [OF assms(2)]
  show ?thesis by simp
qed

lemma fresh_outcomes: "tests r = [] \<Longrightarrow> outcomes_recorded r = 0"
  by (simp add: outcomes_recorded_def)

text \<open>
  The number of invocations of a local run that has returned is the expected total of
  the plan, when no tier and no cycle size is negative and no agent count is given.
\<close>

lemma run_invocations_expected:
  assumes "compute a = Inr (n, cycles, users, None)"
    and "\<forall>u \<in> set users. 0 \<le> u" and "\<forall>c \<in> set cycles. 0 \<le> c"
    and "run ds a = Inr (s, True)"
  shows "int (length (filter is_invoke (trace s))) = n"
proof -
  from run_schedule [OF assms(1), of ds] assms(4)
  have count: "length (filter is_invoke (trace s)) = (\<Sum>u\<leftarrow>users. nat u * sum_list (map nat cycles))"
    by auto
  have "int (sum_list (map nat cs)) = sum_list cs" if "\<forall>c \<in> set cs. 0 \<le> c" for cs :: "int list"
    using that by (induction cs) simp_all
  with assms(3) have cyc: "int (sum_list (map nat cycles)) = sum_list cycles"
    by simp
  have "int (\<Sum>u\<leftarrow>us. nat u * sum_list (map nat cycles)) = (\<Sum>u\<leftarrow>us. u * sum_list cycles)"
    if "\<forall>u \<in> set us. 0 \<le> u" for us
    using that by (induction us) (simp_all add: cyc)
  with assms(2) count
  have "int (length (filter is_invoke (trace s))) = (\<Sum>u\<leftarrow>users. u * sum_list cycles)"
    by simp
  moreover from assms(1) have "n = (\<Sum>u\<leftarrow>users. u * sum_list cycles)"
    by (auto simp: compute_def foldl_total Let_def split: option.splits)
  ultimately show ?thesis by simp
qed

text \<open>
  C4. A local run with users \<open>2\<close> and cycles \<open>3\<close> has the expected total 6. It returns
  when no call of the scenario blocks; and however the calls block, when it has returned
  it has made exactly 6 invocations of the scenario. When the scenario reports one
  outcome for each invocation into a sink that holds no test yet (the calls of these
  reports reaching the sink in any order), the reports are accepted and the sum over
  all buckets of success + len(failures) + len(errors) is 6 (and so is
  \<open>nb_success + nb_failures + nb_errors\<close>).
\<close>

theorem local_run_2_3:
  "compute \<lparr>arg_users = ''2'', arg_cycles = ''3'', arg_agents = None\<rparr> = Inr (6, [3], [2], None)
   \<and> (\<exists>s. run (replicate 8 (Runs False)) \<lparr>arg_users = ''2'', arg_cycles = ''3'', arg_agents = None\<rparr>
          = Inr (s, True))
   \<and> (\<forall>ds s. run ds \<lparr>arg_users = ''2'', arg_cycles = ''3'', arg_agents = None\<rparr> = Inr (s, True)
        \<longrightarrow> length (filter is_invoke (trace s)) = 6
          \<and> (\<forall>reps timed w.
                length reps = length (filter is_invoke (trace s))
                \<and> mset (map fst timed) = mset (reported_calls reps (trace s))
                \<and> tests (sink w) = []
                \<longrightarrow> (\<exists>w'. replay timed w = Inr w'
                      \<and> outcomes_recorded (sink w') = 6
                      \<and> nb_success (sink w') + nb_failures (sink w') + nb_errors (sink w') = 6)))"
proof -
  let ?a = "\<lparr>arg_users = ''2'', arg_cycles = ''3'', arg_agents = None\<rparr>"
  have plan: "compute ?a = Inr (6, [3], [2], None)"
    by (simp add: compute_def literal_simps)
  from run_schedule [OF plan, of "replicate 8 (Runs False)"]
  have returns: "\<exists>s. run (replicate 8 (Runs False)) ?a = Inr (s, True)"
    by auto
  have six: "length (filter is_invoke (trace s)) = 6" if "run ds ?a = Inr (s, True)" for ds s
    using run_invocations_expected [OF plan _ _ that] by simp
  have "\<exists>w'. replay timed w = Inr w' \<and> outcomes_recorded (sink w') = 6
      \<and> nb_success (sink w') + nb_failures (sink w') + nb_errors (sink w') = 6"
    if "run ds ?a = Inr (s, True)" and "length reps = length (filter is_invoke (trace s))"
      and "mset (map fst timed) = mset (reported_calls reps (trace s))" and "tests (sink w) = []"
    for ds s reps timed w
    using replay_reported [OF that(3,2), of w] that(2,4) six [OF that(1)]
    by (auto simp: nb_sum_outcomes fresh_outcomes)
  with plan returns six show ?thesis by blast
qed

theorem local_run_2_3_witness:
  "\<exists>s w'. run (replicate 8 (Runs False)) \<lparr>arg_users = ''2'', arg_cycles = ''3'', arg_agents = None\<rparr>
       = Inr (s, True)
     \<and> replay (map (\<lambda>c. (c, 0)) (reported_calls (replicate 6 passing) (trace s))) fresh_world = Inr w'
     \<and> outcomes_recorded (sink w') = 6"
proof -
  let ?a = "\<lparr>arg_users = ''2'', arg_cycles = ''3'', arg_agents = None\<rparr>"
  from local_run_2_3 obtain s where s: "run (replicate 8 (Runs False)) ?a = Inr (s, True)"
    by blast
  from local_run_2_3 s have six: "length (filter is_invoke (trace s)) = 6"
    by blast
  from local_run_2_3 s have "\<And>reps timed w.
      length reps = length (filter is_invoke (trace s))
      \<and> mset (map fst timed) = mset (reported_calls reps (trace s)) \<and> tests (sink w) = []
      \<Longrightarrow> (\<exists>w'. replay timed w = Inr w'
                 \<and> outcomes_recorded (sink w') = 6
                 \<and> nb_success (sink w') + nb_failures (sink w') + nb_errors (sink w') = 6)"
    by blast
  from this [of "replicate 6 passing"
      "map (\<lambda>c. (c, 0)) (reported_calls (replicate 6 passing) (trace s))" fresh_world] s six
  show ?thesis
    by (auto simp: fresh_world_def TestResult_init_def o_def)
qed

end
